theory Spec2Isabelle
  imports Complex_Main "HOL-Library.Finite_Map" "HOL-Library.FSet" "HOL-Library.Multiset"
begin

section \<open>The trade simulator: order book and position account\<close>

text \<open>
  A shallow embedding of the matching and accounting core of \<^verbatim>\<open>src/App.tsx\<close>:
  the class \<^verbatim>\<open>OrderBook\<close> (\<^verbatim>\<open>add\<close>, \<^verbatim>\<open>bestBid\<close>, \<^verbatim>\<open>bestAsk\<close>,
  \<^verbatim>\<open>executeMarket\<close>, \<^verbatim>\<open>placeAndMatch\<close>) and the function \<^verbatim>\<open>fillPosition\<close>.

  Numbers. The TypeScript type \<^verbatim>\<open>number\<close> is an IEEE double. It is modelled by the
  rationals, with exact arithmetic: the literals \<^verbatim>\<open>0.01\<close>, \<^verbatim>\<open>1e-7\<close> and \<^verbatim>\<open>1e-8\<close> are the
  rationals \<open>1/100\<close>, \<open>1/10^7\<close> and \<open>1/10^8\<close>, and \<^verbatim>\<open>Math.round\<close> is rounding half up.
  Rounding error of the floating-point operations, infinities and NaN are outside the model.

  Containers. A \<^verbatim>\<open>Map<number, Order[]>\<close> is a finite map from prices to queues. The
  insertion order of a JavaScript map is never observed by the modelled code: the keys are
  sorted (\<^verbatim>\<open>executeMarket\<close>) or folded with \<^verbatim>\<open>Math.max\<close> and \<^verbatim>\<open>Math.min\<close> before use.
  The book is mutated in place by the source; the model passes it explicitly and returns
  the updated book.
\<close>

subsection \<open>Data model\<close>

datatype side = Buy | Sell

datatype kind = Limit | Market

record order =
  id_o :: string
  userId :: string
  side_o :: side
  price_o :: rat
  size_o :: rat
  time_o :: rat
  kind_o :: kind

record trade =
  time_t :: rat
  price_t :: rat
  size_t :: rat
  takerSide :: side

type_synonym levels = "(rat, order list) fmap"

record orderBook =
  bids :: levels
  asks :: levels

definition emptyBook :: orderBook where
  "emptyBook = \<lparr>bids = fmempty, asks = fmempty\<rparr>"

definition TICK :: rat where
  "TICK = 1 / 100"

text \<open>\<^verbatim>\<open>Math.round(x)\<close> is \<open>\<lfloor>x + 1/2\<rfloor>\<close>.\<close>

definition roundTick :: "rat \<Rightarrow> rat" where
  "roundTick p = of_int \<lfloor>p / TICK + 1 / 2\<rfloor> * TICK"

subsection \<open>\<^verbatim>\<open>OrderBook.add\<close>, \<^verbatim>\<open>bestBid\<close>, \<^verbatim>\<open>bestAsk\<close>\<close>

text \<open>\<^verbatim>\<open>book.get(px) || []\<close>: an array, even an empty one, is truthy, so the default is
  taken only for a missing key.\<close>

definition addLevel :: "order \<Rightarrow> levels \<Rightarrow> levels" where
  "addLevel ord book =
     (let px = roundTick (price_o ord);
          q = (case fmlookup book px of None \<Rightarrow> [] | Some q0 \<Rightarrow> q0)
      in fmupd px (q @ [ord\<lparr>price_o := px\<rparr>]) book)"

definition add :: "order \<Rightarrow> orderBook \<Rightarrow> orderBook" where
  "add ord b =
     (if side_o ord = Buy then b\<lparr>bids := addLevel ord (bids b)\<rparr>
      else b\<lparr>asks := addLevel ord (asks b)\<rparr>)"

definition bestBid :: "orderBook \<Rightarrow> rat option" where
  "bestBid b = (if fmdom (bids b) = {||} then None else Some (fMax (fmdom (bids b))))"

definition bestAsk :: "orderBook \<Rightarrow> rat option" where
  "bestAsk b = (if fmdom (asks b) = {||} then None else Some (fMin (fmdom (asks b))))"

subsection \<open>\<^verbatim>\<open>OrderBook.executeMarket\<close>\<close>

text \<open>The local variables the two loops of \<^verbatim>\<open>executeMarket\<close> update.\<close>

record matchState =
  remain :: rat
  notional :: rat
  trades :: "trade list"

text \<open>
  The inner loop \<^verbatim>\<open>while (queue.length && remain > 0)\<close> on the queue of the level \<open>px\<close>.
  The head is traded against, and shifted out once its size is at most \<open>1e-7\<close>; a head
  that stays has absorbed all of \<open>remain\<close>, so the loop ends at the next test.
\<close>

function consume :: "side \<Rightarrow> rat \<Rightarrow> rat \<Rightarrow> order list \<Rightarrow> matchState \<Rightarrow> order list \<times> matchState" where
  "consume sd now px [] st = ([], st)"
| "consume sd now px (head # rest) st =
     (if remain st > 0 then
        (let tradeSize = min (remain st) (size_o head);
             head' = head\<lparr>size_o := size_o head - tradeSize\<rparr>;
             st' = \<lparr>remain = remain st - tradeSize,
                    notional = notional st + tradeSize * px,
                    trades = trades st @ [\<lparr>time_t = now, price_t = px, size_t = tradeSize, takerSide = sd\<rparr>]\<rparr>
         in if size_o head' \<le> 1 / 10 ^ 7 then consume sd now px rest st'
            else consume sd now px (head' # rest) st')
      else (head # rest, st))"
  by pat_completeness auto
termination
  by (relation "measure (\<lambda>(sd, now, px, q, st). 2 * length q + (if remain st > 0 then 1 else 0))")
     (auto simp: min_def split: if_splits)

text \<open>\<^verbatim>\<open>[...book.keys()].sort(priceOrder)\<close>: ascending for a buyer, descending for a seller.\<close>

definition sortedLevels :: "side \<Rightarrow> levels \<Rightarrow> rat list" where
  "sortedLevels sd book =
     (if sd = Buy then sorted_list_of_fset (fmdom book)
      else rev (sorted_list_of_fset (fmdom book)))"

text \<open>
  The outer loop \<^verbatim>\<open>for (const px of levels)\<close>. The lookup \<^verbatim>\<open>book.get(px)!\<close> of a price
  that is not a key gives \<^verbatim>\<open>undefined\<close>, and \<^verbatim>\<open>queue.length\<close> then throws a TypeError:
  the result \<open>None\<close>.
\<close>

fun walkLevels :: "side \<Rightarrow> rat \<Rightarrow> rat list \<Rightarrow> levels \<Rightarrow> matchState \<Rightarrow> (levels \<times> matchState) option" where
  "walkLevels sd now [] book st = Some (book, st)"
| "walkLevels sd now (px # pxs) book st =
     (if remain st \<le> 0 then Some (book, st)
      else (case fmlookup book px of
              None \<Rightarrow> None
            | Some queue \<Rightarrow>
                (let (queue', st') = consume sd now px queue st;
                     book' = (if queue' = [] then fmdrop px book else fmupd px queue' book)
                 in walkLevels sd now pxs book' st')))"

record execResult =
  trades_r :: "trade list"
  avgPrice_r :: rat
  filled :: rat

definition executeMarket :: "side \<Rightarrow> rat \<Rightarrow> rat \<Rightarrow> orderBook \<Rightarrow> (orderBook \<times> execResult) option" where
  "executeMarket sd sz now b =
     (let book = (if sd = Buy then asks b else bids b);
          st0 = \<lparr>remain = sz, notional = 0, trades = []\<rparr>
      in case walkLevels sd now (sortedLevels sd book) book st0 of
           None \<Rightarrow> None
         | Some (book', st) \<Rightarrow>
             (let filled = sz - remain st;
                  avgPrice = (if filled > 0 then notional st / filled else 0)
              in Some (if sd = Buy then b\<lparr>asks := book'\<rparr> else b\<lparr>bids := book'\<rparr>,
                       \<lparr>trades_r = trades st, avgPrice_r = avgPrice, filled = filled\<rparr>)))"

subsection \<open>\<^verbatim>\<open>OrderBook.placeAndMatch\<close>\<close>

record placeResult =
  trades_p :: "trade list"
  remaining :: "order option"

text \<open>The test \<^verbatim>\<open>bestOpp !== null && (buy && price >= bestOpp || sell && price <= bestOpp)\<close>.\<close>

definition crosses :: "order \<Rightarrow> rat option \<Rightarrow> bool" where
  "crosses ord bestOpp =
     (case bestOpp of
        None \<Rightarrow> False
      | Some opp \<Rightarrow> (side_o ord = Buy \<and> price_o ord \<ge> opp) \<or> (side_o ord = Sell \<and> price_o ord \<le> opp))"

definition placeAndMatch :: "order \<Rightarrow> rat \<Rightarrow> orderBook \<Rightarrow> (orderBook \<times> placeResult) option" where
  "placeAndMatch ord now b =
     (if kind_o ord = Market then
        (case executeMarket (side_o ord) (size_o ord) now b of
           None \<Rightarrow> None
         | Some (b', res) \<Rightarrow> Some (b', \<lparr>trades_p = trades_r res, remaining = None\<rparr>))
      else
        (let bestOpp = (if side_o ord = Buy then bestAsk b else bestBid b)
         in if crosses ord bestOpp then
              (case executeMarket (side_o ord) (size_o ord) now b of
                 None \<Rightarrow> None
               | Some (b', res) \<Rightarrow>
                   (let remainingSize = size_o ord - filled res
                    in if remainingSize > 1 / 10 ^ 8 then
                         (let leftover = ord\<lparr>size_o := remainingSize\<rparr>
                          in Some (add leftover b', \<lparr>trades_p = trades_r res, remaining = Some leftover\<rparr>))
                       else Some (b', \<lparr>trades_p = trades_r res, remaining = None\<rparr>)))
            else Some (add ord b, \<lparr>trades_p = [], remaining = Some ord\<rparr>)))"

subsection \<open>\<^verbatim>\<open>fillPosition\<close>\<close>

text \<open>The React state \<^verbatim>\<open>cash\<close>, \<^verbatim>\<open>position\<close>, \<^verbatim>\<open>avgPrice\<close>, \<^verbatim>\<open>realized\<close> that
  \<^verbatim>\<open>fillPosition\<close> reads and sets.\<close>

record account =
  cash :: rat
  position :: rat
  avgPrice :: rat
  realized :: rat

text \<open>The body of \<^verbatim>\<open>for (const f of fills)\<close>, on the locals \<^verbatim>\<open>newCash\<close>, \<^verbatim>\<open>newPos\<close>,
  \<^verbatim>\<open>newAvg\<close>, \<^verbatim>\<open>newReal\<close>.\<close>

definition fillStep :: "side \<Rightarrow> account \<Rightarrow> trade \<Rightarrow> account" where
  "fillStep sd a f =
     (if sd = Buy then
        (if position a \<ge> 0 then
           (let totalCost = avgPrice a * position a + price_t f * size_t f;
                newPos = position a + size_t f
            in a\<lparr>position := newPos,
                 avgPrice := (if newPos > 0 then totalCost / newPos else 0),
                 cash := cash a - price_t f * size_t f\<rparr>)
         else
           (let closeSize = min (size_t f) (- position a);
                a1 = a\<lparr>cash := cash a - price_t f * closeSize,
                       realized := realized a + (avgPrice a - price_t f) * closeSize,
                       position := position a + closeSize\<rparr>;
                leftover = size_t f - closeSize
            in if leftover > 0 then
                 (let totalCost = price_t f * leftover;
                      newPos = position a1 + leftover
                  in a1\<lparr>position := newPos,
                        avgPrice := totalCost / newPos,
                        cash := cash a1 - price_t f * leftover\<rparr>)
               else a1))
      else
        (if position a \<le> 0 then
           (let a1 = (if position a < 0 then
                        (let totalProceeds = - avgPrice a * position a + price_t f * size_t f;
                             newPos = position a - size_t f
                         in a\<lparr>position := newPos,
                              avgPrice := (if newPos < 0 then - totalProceeds / newPos else 0)\<rparr>)
                      else a\<lparr>position := position a - size_t f, avgPrice := - avgPrice a\<rparr>)
            in a1\<lparr>cash := cash a1 + price_t f * size_t f\<rparr>)
         else
           (let closeSize = min (size_t f) (position a);
                a1 = a\<lparr>cash := cash a + price_t f * closeSize,
                       realized := realized a + (price_t f - avgPrice a) * closeSize,
                       position := position a - closeSize\<rparr>;
                leftover = size_t f - closeSize
            in if leftover > 0 then
                 a1\<lparr>position := position a1 - leftover,
                     avgPrice := price_t f,
                     cash := cash a1 + price_t f * leftover\<rparr>
               else a1)))"

text \<open>\<^verbatim>\<open>fillPosition\<close>: nothing is set for an empty batch; otherwise the fills are folded
  from the current state, a position below \<open>1e-8\<close> in magnitude is zeroed with its
  average, and the four fields are set.\<close>

definition fillPosition :: "side \<Rightarrow> trade list \<Rightarrow> account \<Rightarrow> account" where
  "fillPosition sd fills a =
     (if fills = [] then a
      else (let a' = foldl (fillStep sd) a fills
            in if \<bar>position a'\<bar> < 1 / 10 ^ 8 then a'\<lparr>position := 0, avgPrice := 0\<rparr> else a'))"

section \<open>Specification-level notions\<close>

text \<open>These definitions are not code of the repository: they are the vocabulary in which
  the properties of the code are stated.\<close>

text \<open>The total size of a queue, the queue at a price (empty where there is no level), and
  the total resting size of one side of the book.\<close>

definition qsize :: "order list \<Rightarrow> rat" where
  "qsize q = sum_list (map size_o q)"

definition queueAt :: "levels \<Rightarrow> rat \<Rightarrow> order list" where
  "queueAt book px = (case fmlookup book px of None \<Rightarrow> [] | Some q \<Rightarrow> q)"

definition restingSize :: "levels \<Rightarrow> rat" where
  "restingSize book = sum_list (map (\<lambda>px. qsize (queueAt book px)) (sorted_list_of_fset (fmdom book)))"

text \<open>The side of the book an aggressor of side \<open>sd\<close> trades against, and its own side.\<close>

definition oppositeSide :: "side \<Rightarrow> orderBook \<Rightarrow> levels" where
  "oppositeSide sd b = (if sd = Buy then asks b else bids b)"

definition ownSide :: "side \<Rightarrow> orderBook \<Rightarrow> levels" where
  "ownSide sd b = (if sd = Buy then bids b else asks b)"

text \<open>Sums over a list of trades: the traded size and the traded notional.\<close>

definition tradedSize :: "trade list \<Rightarrow> rat" where
  "tradedSize ts = sum_list (map size_t ts)"

definition tradedNotional :: "trade list \<Rightarrow> rat" where
  "tradedNotional ts = sum_list (map (\<lambda>t. size_t t * price_t t) ts)"

text \<open>One match of the aggressor against the head of a queue, on the loop variables.\<close>

definition matched :: "side \<Rightarrow> rat \<Rightarrow> rat \<Rightarrow> order \<Rightarrow> matchState \<Rightarrow> matchState" where
  "matched sd now px head st =
     \<lparr>remain = remain st - min (remain st) (size_o head),
      notional = notional st + min (remain st) (size_o head) * px,
      trades = trades st @ [\<lparr>time_t = now, price_t = px, size_t = min (remain st) (size_o head), takerSide = sd\<rparr>]\<rparr>"

text \<open>
  Price-time priority, as the specification words it. \<open>priorityList\<close> lists the resting
  orders of one side, each with the price of its level: levels in aggressor-favourable
  order, and the orders of a level in queue order (first in, first out). \<open>fillQueue\<close>
  serves that list from its front with an aggressor of size \<open>rem\<close>: every order met
  while size remains trades the lesser of the remaining size and its own size, so an order
  receives a fill only after every order before it has been filled completely.
  \<open>remAfter\<close> is the size left over. \<open>restAfter\<close> is the list of resting orders
  left behind: an order whose size after its trade is at most \<open>1e-7\<close> is gone, an order
  filled in part stays in its place with its size reduced, and the orders not reached are
  untouched.
\<close>

definition priorityList :: "side \<Rightarrow> levels \<Rightarrow> (rat \<times> order) list" where
  "priorityList sd book = concat (map (\<lambda>px. map (Pair px) (queueAt book px)) (sortedLevels sd book))"

fun fillQueue :: "side \<Rightarrow> rat \<Rightarrow> rat \<Rightarrow> (rat \<times> order) list \<Rightarrow> trade list" where
  "fillQueue sd now rem [] = []"
| "fillQueue sd now rem ((px, ord) # rest) =
     (if rem > 0 then
        \<lparr>time_t = now, price_t = px, size_t = min rem (size_o ord), takerSide = sd\<rparr>
          # fillQueue sd now (rem - min rem (size_o ord)) rest
      else [])"

fun remAfter :: "rat \<Rightarrow> (rat \<times> order) list \<Rightarrow> rat" where
  "remAfter rem [] = rem"
| "remAfter rem ((px, ord) # rest) =
     (if rem > 0 then remAfter (rem - min rem (size_o ord)) rest else rem)"

fun restAfter :: "rat \<Rightarrow> (rat \<times> order) list \<Rightarrow> (rat \<times> order) list" where
  "restAfter rem [] = []"
| "restAfter rem ((px, ord) # rest) =
     (if rem > 0 then
        (if size_o ord - min rem (size_o ord) \<le> 1 / 10 ^ 7
         then restAfter (rem - min rem (size_o ord)) rest
         else (px, ord\<lparr>size_o := size_o ord - min rem (size_o ord)\<rparr>)
                # restAfter (rem - min rem (size_o ord)) rest)
      else (px, ord) # rest)"

text \<open>The write-back after the inner loop: \<^verbatim>\<open>if (queue.length === 0) book.delete(px)\<close>;
  otherwise the level keeps its (mutated) queue.\<close>

definition setLevel :: "rat \<Rightarrow> order list \<Rightarrow> levels \<Rightarrow> levels" where
  "setLevel px q book = (if q = [] then fmdrop px book else fmupd px q book)"

text \<open>The resting size summed over a set of prices.\<close>

definition levelSum :: "rat set \<Rightarrow> levels \<Rightarrow> rat" where
  "levelSum A book = (\<Sum>p\<in>A. qsize (queueAt book p))"

text \<open>A batch of fills of side \<open>sd\<close> does not take the position through zero: it extends
  the exposure, or its total size is at most the size of the opposite position.\<close>

definition staysOnSide :: "side \<Rightarrow> account \<Rightarrow> trade list \<Rightarrow> bool" where
  "staysOnSide sd a fs =
     (if sd = Buy then 0 \<le> position a \<or> tradedSize fs \<le> - position a
      else position a \<le> 0 \<or> tradedSize fs \<le> position a)"

text \<open>The profit realized by fills that all close exposure held at the average \<open>avg\<close>.\<close>

definition closedPnL :: "side \<Rightarrow> rat \<Rightarrow> trade list \<Rightarrow> rat" where
  "closedPnL sd avg fs =
     (if sd = Buy then sum_list (map (\<lambda>f. (avg - price_t f) * size_t f) fs)
      else sum_list (map (\<lambda>f. (price_t f - avg) * size_t f) fs))"

text \<open>Crossing, as the specification words it: a buy price at or above the best ask, or a
  sell price at or below the best bid.\<close>

definition crossesBook :: "order \<Rightarrow> orderBook \<Rightarrow> bool" where
  "crossesBook ord b =
     (if side_o ord = Buy then (case bestAsk b of None \<Rightarrow> False | Some a \<Rightarrow> a \<le> price_o ord)
      else (case bestBid b of None \<Rightarrow> False | Some bb \<Rightarrow> price_o ord \<le> bb))"

text \<open>
  Sequences of calls on a book. \<open>uncrossed\<close> is the property that the best bid is below
  the best ask whenever both exist. A call is \<open>admissible\<close> on a book when it is an \<^verbatim>\<open>add\<close>
  of an order whose tick-rounded price does not cross the best opposing price, or a
  \<^verbatim>\<open>placeAndMatch\<close> of a market order or of a limit order whose price is on the tick grid.
\<close>

datatype bookOp = Add order | PlaceAndMatch order rat

fun applyOp :: "bookOp \<Rightarrow> orderBook \<Rightarrow> orderBook option" where
  "applyOp (Add ord) b = Some (add ord b)"
| "applyOp (PlaceAndMatch ord now) b = map_option fst (placeAndMatch ord now b)"

fun runOps :: "bookOp list \<Rightarrow> orderBook \<Rightarrow> orderBook option" where
  "runOps [] b = Some b"
| "runOps (oper # ops) b = (case applyOp oper b of None \<Rightarrow> None | Some b' \<Rightarrow> runOps ops b')"

definition uncrossed :: "orderBook \<Rightarrow> bool" where
  "uncrossed b =
     (case bestBid b of
        None \<Rightarrow> True
      | Some bb \<Rightarrow> (case bestAsk b of None \<Rightarrow> True | Some ba \<Rightarrow> bb < ba))"

fun admissible :: "bookOp \<Rightarrow> orderBook \<Rightarrow> bool" where
  "admissible (Add ord) b = (\<not> crossesBook (ord\<lparr>price_o := roundTick (price_o ord)\<rparr>) b)"
| "admissible (PlaceAndMatch ord now) b = (kind_o ord = Market \<or> roundTick (price_o ord) = price_o ord)"

fun admissibleRun :: "bookOp list \<Rightarrow> orderBook \<Rightarrow> bool" where
  "admissibleRun [] b = True"
| "admissibleRun (oper # ops) b =
     (admissible oper b \<and>
      (case applyOp oper b of None \<Rightarrow> False | Some b' \<Rightarrow> admissibleRun ops b'))"

section \<open>Example states\<close>

text \<open>Concrete orders and books on which the theorems below are instantiated.\<close>

definition limitOrder :: "string \<Rightarrow> side \<Rightarrow> rat \<Rightarrow> rat \<Rightarrow> order" where
  "limitOrder i sd p s =
     \<lparr>id_o = i, userId = ''you'', side_o = sd, price_o = p, size_o = s, time_o = 0, kind_o = Limit\<rparr>"

definition marketOrder :: "string \<Rightarrow> side \<Rightarrow> rat \<Rightarrow> order" where
  "marketOrder i sd s =
     \<lparr>id_o = i, userId = ''you'', side_o = sd, price_o = 0, size_o = s, time_o = 0, kind_o = Market\<rparr>"

text \<open>Two asks at \<open>1.00\<close> (\<open>A\<close> before \<open>B\<close>) and one at \<open>1.05\<close>; two bids at \<open>0.95\<close> and \<open>0.99\<close>,
  the lower one submitted first.\<close>

definition demoBook :: orderBook where
  "demoBook =
     add (limitOrder ''E'' Buy (99 / 100) 4)
       (add (limitOrder ''D'' Buy (95 / 100) 1)
         (add (limitOrder ''C'' Sell (105 / 100) 1)
           (add (limitOrder ''B'' Sell 1 3)
             (add (limitOrder ''A'' Sell 1 2) emptyBook))))"

text \<open>One ask of size \<open>1\<close> at \<open>1.00\<close>, and the result of a market buy of \<open>1 - 5e-8\<close>
  against it.\<close>

definition dustBook :: orderBook where
  "dustBook = add (limitOrder ''A'' Sell 1 1) emptyBook"

definition dustResult :: execResult where
  "dustResult =
     \<lparr>trades_r = [\<lparr>time_t = 0, price_t = 1, size_t = 1 - 5 / 10 ^ 8, takerSide = Buy\<rparr>],
      avgPrice_r = 1, filled = 1 - 5 / 10 ^ 8\<rparr>"

text \<open>A fill, an account with no position, and an account short \<open>5\<close> at \<open>10\<close>.\<close>

definition fillOf :: "side \<Rightarrow> rat \<Rightarrow> rat \<Rightarrow> trade" where
  "fillOf sd p s = \<lparr>time_t = 0, price_t = p, size_t = s, takerSide = sd\<rparr>"

definition flatAccount :: account where
  "flatAccount = \<lparr>cash = 10000, position = 0, avgPrice = 0, realized = 0\<rparr>"

definition shortAccount :: account where
  "shortAccount = \<lparr>cash = 10000, position = - 5, avgPrice = 10, realized = 0\<rparr>"

text \<open>The result of a limit buy of \<open>1 + 5e-9\<close> at \<open>1.00\<close> on \<open>dustBook\<close>.\<close>

definition dustPlaced :: placeResult where
  "dustPlaced =
     \<lparr>trades_p = [\<lparr>time_t = 0, price_t = 1, size_t = 1, takerSide = Buy\<rparr>], remaining = None\<rparr>"

text \<open>Sequences of calls: an admissible one; two \<^verbatim>\<open>add\<close> calls that cross; and two
  \<^verbatim>\<open>placeAndMatch\<close> calls of which the second has a price off the tick grid.\<close>

definition demoOps :: "bookOp list" where
  "demoOps =
     [Add (limitOrder ''A'' Sell 1 2),
      PlaceAndMatch (limitOrder ''B'' Buy (99 / 100) 1) 1,
      PlaceAndMatch (limitOrder ''C'' Sell (101 / 100) 3) 2,
      PlaceAndMatch (limitOrder ''D'' Buy 1 1) 3,
      PlaceAndMatch (marketOrder ''E'' Sell (1 / 2)) 4]"

definition crossedAdds :: "bookOp list" where
  "crossedAdds = [Add (limitOrder ''A'' Buy 1 1), Add (limitOrder ''B'' Sell (99 / 100) 1)]"

definition offTickPlaces :: "bookOp list" where
  "offTickPlaces =
     [PlaceAndMatch (limitOrder ''A'' Sell 1 1) 0,
      PlaceAndMatch (limitOrder ''B'' Buy (99996 / 100000) 1) 1]"

section \<open>Properties of the matching loops\<close>

lemma consume_done: "remain st \<le> 0 \<Longrightarrow> consume sd now px q st = (q, st)"
  by (cases q) auto

lemma consume_shift:
  "remain st > 0 \<Longrightarrow> size_o head \<le> remain st + 1 / 10 ^ 7 \<Longrightarrow>
   consume sd now px (head # rest) st = consume sd now px rest (matched sd now px head st)"
  by (auto simp: Let_def matched_def min_def)

lemma consume_stay:
  "remain st > 0 \<Longrightarrow> \<not> size_o head \<le> remain st + 1 / 10 ^ 7 \<Longrightarrow>
   consume sd now px (head # rest) st =
     (head\<lparr>size_o := size_o head - remain st\<rparr> # rest, matched sd now px head st)"
  by (auto simp: Let_def matched_def min_def consume_done)

text \<open>Conservation in one level: what leaves the queue is what the aggressor takes, up
  to the residue of at most \<open>1e-7\<close> of one shifted head; and an aggressor that still has
  size has emptied the queue.\<close>

lemma consume_conserve:
  "consume sd now px q st = (q', st') \<Longrightarrow> 0 \<le> remain st \<Longrightarrow>
     0 \<le> remain st' \<and>
     0 \<le> (qsize q - qsize q') - (remain st - remain st') \<and>
     (qsize q - qsize q') - (remain st - remain st') \<le> 1 / 10 ^ 7 \<and>
     (remain st' > 0 \<longrightarrow> q' = [] \<and> qsize q - qsize q' = remain st - remain st')"
proof (induction sd now px q st arbitrary: q' st' rule: consume.induct)
  case (1 sd now px st)
  then show ?case by (simp add: qsize_def)
next
  case (2 sd now px head rest st)
  show ?case
  proof (cases "remain st > 0")
    case False
    with "2.prems" show ?thesis by simp
  next
    case pos: True
    let ?st1 = "matched sd now px head st"
    show ?thesis
    proof (cases "size_o head \<le> remain st + 1 / 10 ^ 7")
      case shift: True
      from "2.prems"(1) have eq: "consume sd now px rest ?st1 = (q', st')"
        by (simp only: consume_shift[OF pos shift])
      show ?thesis
      proof (cases "remain st \<le> size_o head")
        case True
        then have "remain ?st1 = 0" by (simp add: matched_def)
        with eq have "q' = rest" "st' = ?st1" by (simp_all add: consume_done)
        with True shift pos show ?thesis
          by (simp add: qsize_def matched_def)
      next
        case False
        then have r1: "remain ?st1 = remain st - size_o head" by (simp add: matched_def)
        with False have nn: "0 \<le> remain ?st1" by simp
        have sh: "size_o (head\<lparr>size_o := size_o head - min (remain st) (size_o head)\<rparr>) \<le> 1 / 10 ^ 7"
          using False by simp
        have m: "min (remain st) (size_o head) = size_o head" using False by simp
        from "2.IH"(1)[OF pos refl refl refl sh eq[unfolded matched_def] nn[unfolded matched_def]]
        show ?thesis unfolding m by (auto simp: qsize_def)
      qed
    next
      case stay: False
      from "2.prems"(1) have "q' = head\<lparr>size_o := size_o head - remain st\<rparr> # rest" "st' = ?st1"
        by (simp_all only: consume_stay[OF pos stay] prod.inject)
      then show ?thesis using stay pos
        by (simp add: qsize_def matched_def)
    qed
  qed
qed

lemma fillQueue_nonpos: "rem \<le> 0 \<Longrightarrow> fillQueue sd now rem xs = []"
  by (cases xs) auto

lemma remAfter_nonpos: "rem \<le> 0 \<Longrightarrow> remAfter rem xs = rem"
  by (cases xs) auto

lemma fillQueue_append:
  "fillQueue sd now rem (xs @ ys) = fillQueue sd now rem xs @ fillQueue sd now (remAfter rem xs) ys"
  by (induction xs arbitrary: rem) (auto simp: fillQueue_nonpos)

lemma remAfter_append: "remAfter rem (xs @ ys) = remAfter (remAfter rem xs) ys"
  by (induction xs arbitrary: rem) (auto simp: remAfter_nonpos)

lemma consume_trades:
  "consume sd now px q st = (q', st') \<Longrightarrow>
     trades st' = trades st @ fillQueue sd now (remain st) (map (Pair px) q) \<and>
     remain st' = remAfter (remain st) (map (Pair px) q)"
proof (induction sd now px q st arbitrary: q' st' rule: consume.induct)
  case (1 sd now px st)
  then show ?case by simp
next
  case (2 sd now px head rest st)
  show ?case
  proof (cases "remain st > 0")
    case False
    with "2.prems" show ?thesis by (auto simp: fillQueue_nonpos remAfter_nonpos)
  next
    case pos: True
    let ?st1 = "matched sd now px head st"
    show ?thesis
    proof (cases "size_o head \<le> remain st + 1 / 10 ^ 7")
      case shift: True
      from "2.prems"(1) have eq: "consume sd now px rest ?st1 = (q', st')"
        by (simp only: consume_shift[OF pos shift])
      have sh: "size_o (head\<lparr>size_o := size_o head - min (remain st) (size_o head)\<rparr>) \<le> 1 / 10 ^ 7"
        using shift by (simp add: min_def)
      from "2.IH"(1)[OF pos refl refl refl sh eq[unfolded matched_def]]
      show ?thesis using pos by simp
    next
      case stay: False
      from "2.prems"(1) have "q' = head\<lparr>size_o := size_o head - remain st\<rparr> # rest" "st' = ?st1"
        by (simp_all only: consume_stay[OF pos stay] prod.inject)
      moreover have "min (remain st) (size_o head) = remain st" using stay by simp
      ultimately show ?thesis using pos
        by (simp add: matched_def fillQueue_nonpos remAfter_nonpos)
    qed
  qed
qed

lemma consume_sums:
  "consume sd now px q st = (q', st') \<Longrightarrow>
     notional st' - tradedNotional (trades st') = notional st - tradedNotional (trades st) \<and>
     remain st' + tradedSize (trades st') = remain st + tradedSize (trades st)"
proof (induction sd now px q st arbitrary: q' st' rule: consume.induct)
  case (1 sd now px st)
  then show ?case by simp
next
  case (2 sd now px head rest st)
  show ?case
  proof (cases "remain st > 0")
    case False
    with "2.prems" show ?thesis by simp
  next
    case pos: True
    let ?st1 = "matched sd now px head st"
    have step: "notional ?st1 - tradedNotional (trades ?st1) = notional st - tradedNotional (trades st) \<and>
     remain ?st1 + tradedSize (trades ?st1) = remain st + tradedSize (trades st)"
      by (simp add: matched_def tradedNotional_def tradedSize_def)
    show ?thesis
    proof (cases "size_o head \<le> remain st + 1 / 10 ^ 7")
      case shift: True
      from "2.prems"(1) have eq: "consume sd now px rest ?st1 = (q', st')"
        by (simp only: consume_shift[OF pos shift])
      have sh: "size_o (head\<lparr>size_o := size_o head - min (remain st) (size_o head)\<rparr>) \<le> 1 / 10 ^ 7"
        using shift by (simp add: min_def)
      from "2.IH"(1)[OF pos refl refl refl sh eq[unfolded matched_def]] step
      show ?thesis by (simp add: matched_def)
    next
      case stay: False
      from "2.prems"(1) have "q' = head\<lparr>size_o := size_o head - remain st\<rparr> # rest" "st' = ?st1"
        by (simp_all only: consume_stay[OF pos stay] prod.inject)
      with step show ?thesis by simp
    qed
  qed
qed

lemma queueAt_setLevel: "queueAt (setLevel px q book) p = (if p = px then q else queueAt book p)"
  by (simp add: queueAt_def setLevel_def)

lemma lookup_setLevel_other: "p \<noteq> px \<Longrightarrow> fmlookup (setLevel px q book) p = fmlookup book p"
  by (simp add: setLevel_def)

lemma dom_setLevel: "fmdom (setLevel px q book) = (if q = [] then fmdom book |-| {|px|} else finsert px (fmdom book))"
  by (simp add: setLevel_def)

lemma walk_done: "remain st \<le> 0 \<Longrightarrow> walkLevels sd now pxs book st = Some (book, st)"
  by (cases pxs) auto

lemma walk_step:
  "remain st > 0 \<Longrightarrow> fmlookup book px = Some q \<Longrightarrow> consume sd now px q st = (q', st1) \<Longrightarrow>
   walkLevels sd now (px # pxs) book st = walkLevels sd now pxs (setLevel px q' book) st1"
  by (simp add: setLevel_def)

lemma walk_missing:
  "remain st > 0 \<Longrightarrow> fmlookup book px = None \<Longrightarrow> walkLevels sd now (px # pxs) book st = None"
  by simp

lemma walk_total:
  "distinct pxs \<Longrightarrow> set pxs \<subseteq> fset (fmdom book) \<Longrightarrow> \<exists>r. walkLevels sd now pxs book st = Some r"
proof (induction pxs arbitrary: book st)
  case Nil
  then show ?case by simp
next
  case (Cons px pxs)
  show ?case
  proof (cases "remain st > 0")
    case False
    then show ?thesis by (simp add: walk_done)
  next
    case True
    from Cons.prems obtain q where q: "fmlookup book px = Some q"
      by (auto simp: fmlookup_dom_iff)
    obtain q' st1 where c: "consume sd now px q st = (q', st1)" by (cases "consume sd now px q st")
    have "set pxs \<subseteq> fset (fmdom (setLevel px q' book))"
      using Cons.prems by (auto simp: dom_setLevel)
    with Cons.IH[of "setLevel px q' book" st1] Cons.prems(1)
    show ?thesis by (simp only: walk_step[OF True q c]) simp
  qed
qed

lemma walk_frame:
  "walkLevels sd now pxs book st = Some (book', st') \<Longrightarrow>
     fmdom book' |\<subseteq>| fmdom book \<and> (\<forall>p. p \<notin> set pxs \<longrightarrow> fmlookup book' p = fmlookup book p)"
proof (induction pxs arbitrary: book st)
  case Nil
  then show ?case by simp
next
  case (Cons px pxs)
  show ?case
  proof (cases "remain st > 0")
    case False
    with Cons.prems show ?thesis by (simp add: walk_done)
  next
    case True
    show ?thesis
    proof (cases "fmlookup book px")
      case None
      with Cons.prems True show ?thesis by simp
    next
      case (Some q)
      obtain q' st1 where c: "consume sd now px q st = (q', st1)" by (cases "consume sd now px q st")
      from Cons.prems have "walkLevels sd now pxs (setLevel px q' book) st1 = Some (book', st')"
        by (simp only: walk_step[OF True Some c])
      from Cons.IH[OF this] have
        d: "fmdom book' |\<subseteq>| fmdom (setLevel px q' book)" and
        l: "\<And>p. p \<notin> set pxs \<Longrightarrow> fmlookup book' p = fmlookup (setLevel px q' book) p" by auto
      have "px |\<in>| fmdom book" using Some by (simp add: fmdomI)
      then have "fmdom (setLevel px q' book) |\<subseteq>| fmdom book" by (auto simp: dom_setLevel)
      with d have "fmdom book' |\<subseteq>| fmdom book" by simp
      moreover have "\<forall>p. p \<notin> set (px # pxs) \<longrightarrow> fmlookup book' p = fmlookup book p"
        using l by (simp add: lookup_setLevel_other)
      ultimately show ?thesis by simp
    qed
  qed
qed

lemma levelSum_setLevel:
  "finite A \<Longrightarrow> px \<in> A \<Longrightarrow>
   levelSum A (setLevel px q' book) = levelSum A book - qsize (queueAt book px) + qsize q'"
proof -
  assume A: "finite A" "px \<in> A"
  have "levelSum A (setLevel px q' book) = qsize q' + levelSum (A - {px}) (setLevel px q' book)"
    using A by (simp add: levelSum_def sum.remove queueAt_setLevel)
  moreover have "levelSum (A - {px}) (setLevel px q' book) = levelSum (A - {px}) book"
    unfolding levelSum_def by (rule sum.cong) (simp_all add: queueAt_setLevel)
  moreover have "levelSum A book = qsize (queueAt book px) + levelSum (A - {px}) book"
    using A by (simp add: levelSum_def sum.remove)
  ultimately show ?thesis by simp
qed

lemma walk_conserve:
  "walkLevels sd now pxs book st = Some (book', st') \<Longrightarrow> finite A \<Longrightarrow> set pxs \<subseteq> A \<Longrightarrow>
   0 \<le> remain st \<Longrightarrow>
     0 \<le> remain st' \<and>
     0 \<le> (levelSum A book - levelSum A book') - (remain st - remain st') \<and>
     (levelSum A book - levelSum A book') - (remain st - remain st') \<le> 1 / 10 ^ 7 \<and>
     (remain st' > 0 \<longrightarrow>
        levelSum A book - levelSum A book' = remain st - remain st' \<and>
        (\<forall>p\<in>set pxs. p |\<notin>| fmdom book'))"
proof (induction pxs arbitrary: book st)
  case Nil
  then show ?case by simp
next
  case (Cons px pxs)
  show ?case
  proof (cases "remain st > 0")
    case False
    with Cons.prems show ?thesis by (simp add: walk_done)
  next
    case True
    show ?thesis
    proof (cases "fmlookup book px")
      case None
      with Cons.prems True show ?thesis by simp
    next
      case (Some q)
      obtain q' st1 where c: "consume sd now px q st = (q', st1)" by (cases "consume sd now px q st")
      let ?b1 = "setLevel px q' book"
      from Cons.prems(1) have w: "walkLevels sd now pxs ?b1 st1 = Some (book', st')"
        by (simp only: walk_step[OF True Some c])
      from consume_conserve[OF c Cons.prems(4)] have
        c1: "0 \<le> remain st1" and
        c2: "0 \<le> (qsize q - qsize q') - (remain st - remain st1)" and
        c3: "(qsize q - qsize q') - (remain st - remain st1) \<le> 1 / 10 ^ 7" and
        c4: "remain st1 > 0 \<Longrightarrow> q' = [] \<and> qsize q - qsize q' = remain st - remain st1"
        by auto
      have qa: "queueAt book px = q" using Some by (simp add: queueAt_def)
      have ls: "levelSum A book - levelSum A ?b1 = qsize q - qsize q'"
        using levelSum_setLevel[of A px q' book] Cons.prems(2,3) qa by simp
      have sub: "set pxs \<subseteq> A" using Cons.prems(3) by simp
      show ?thesis
      proof (cases "remain st1 > 0")
        case False
        with c1 have z: "remain st1 = 0" by simp
        with w have "book' = ?b1" "st' = st1" by (simp_all add: walk_done)
        with z c2 c3 ls show ?thesis by simp
      next
        case pos1: True
        from c4[OF pos1] have e: "q' = []" "qsize q - qsize q' = remain st - remain st1" by auto
        from Cons.IH[OF w Cons.prems(2) sub c1] have
          i1: "0 \<le> remain st'" and
          i2: "0 \<le> (levelSum A ?b1 - levelSum A book') - (remain st1 - remain st')" and
          i3: "(levelSum A ?b1 - levelSum A book') - (remain st1 - remain st') \<le> 1 / 10 ^ 7" and
          i4: "remain st' > 0 \<Longrightarrow> levelSum A ?b1 - levelSum A book' = remain st1 - remain st' \<and>
                 (\<forall>p\<in>set pxs. p |\<notin>| fmdom book')"
          by auto
        have gone: "px |\<notin>| fmdom book'"
        proof -
          have "fmdom book' |\<subseteq>| fmdom ?b1" using walk_frame[OF w] by simp
          moreover have "px |\<notin>| fmdom ?b1" using e(1) by (simp add: dom_setLevel)
          ultimately show ?thesis by auto
        qed
        have tot: "(levelSum A book - levelSum A book') - (remain st - remain st')
                 = (levelSum A ?b1 - levelSum A book') - (remain st1 - remain st')"
          using ls e(2) by simp
        have tot': "levelSum A book - levelSum A book' = remain st - remain st'"
          if "levelSum A ?b1 - levelSum A book' = remain st1 - remain st'"
          using that ls e(2) by simp
        show ?thesis unfolding tot using i1 i2 i3 i4 gone tot' by auto
      qed
    qed
  qed
qed

lemma walk_trades:
  "walkLevels sd now pxs book st = Some (book', st') \<Longrightarrow> distinct pxs \<Longrightarrow>
     trades st' = trades st @ fillQueue sd now (remain st) (concat (map (\<lambda>p. map (Pair p) (queueAt book p)) pxs)) \<and>
     remain st' = remAfter (remain st) (concat (map (\<lambda>p. map (Pair p) (queueAt book p)) pxs))"
proof (induction pxs arbitrary: book st)
  case Nil
  then show ?case by simp
next
  case (Cons px pxs)
  show ?case
  proof (cases "remain st > 0")
    case False
    with Cons.prems show ?thesis by (simp add: walk_done fillQueue_nonpos remAfter_nonpos)
  next
    case True
    show ?thesis
    proof (cases "fmlookup book px")
      case None
      with Cons.prems True show ?thesis by simp
    next
      case (Some q)
      obtain q' st1 where c: "consume sd now px q st = (q', st1)" by (cases "consume sd now px q st")
      let ?b1 = "setLevel px q' book"
      from Cons.prems(1) have w: "walkLevels sd now pxs ?b1 st1 = Some (book', st')"
        by (simp only: walk_step[OF True Some c])
      have qa: "queueAt book px = q" using Some by (simp add: queueAt_def)
      have same: "map (\<lambda>p. map (Pair p) (queueAt ?b1 p)) pxs = map (\<lambda>p. map (Pair p) (queueAt book p)) pxs"
        using Cons.prems(2) by (auto simp: queueAt_setLevel)
      from Cons.prems(2) have "distinct pxs" by simp
      from Cons.IH[OF w this] consume_trades[OF c]
      show ?thesis by (simp add: same qa fillQueue_append remAfter_append)
    qed
  qed
qed

lemma walk_sums:
  "walkLevels sd now pxs book st = Some (book', st') \<Longrightarrow>
     notional st' - tradedNotional (trades st') = notional st - tradedNotional (trades st) \<and>
     remain st' + tradedSize (trades st') = remain st + tradedSize (trades st)"
proof (induction pxs arbitrary: book st)
  case Nil
  then show ?case by simp
next
  case (Cons px pxs)
  show ?case
  proof (cases "remain st > 0")
    case False
    with Cons.prems show ?thesis by (simp add: walk_done)
  next
    case True
    show ?thesis
    proof (cases "fmlookup book px")
      case None
      with Cons.prems True show ?thesis by simp
    next
      case (Some q)
      obtain q' st1 where c: "consume sd now px q st = (q', st1)" by (cases "consume sd now px q st")
      from Cons.prems(1) have w: "walkLevels sd now pxs (setLevel px q' book) st1 = Some (book', st')"
        by (simp only: walk_step[OF True Some c])
      from Cons.IH[OF w] consume_sums[OF c] show ?thesis by simp
    qed
  qed
qed

lemma sortedLevels_set: "set (sortedLevels sd book) = fset (fmdom book)"
  by (simp add: sortedLevels_def)

lemma sortedLevels_distinct: "distinct (sortedLevels sd book)"
  by (simp add: sortedLevels_def sorted_list_of_fset.rep_eq)

lemma restingSize_levelSum: "restingSize book = levelSum (fset (fmdom book)) book"
  by (simp add: restingSize_def levelSum_def sorted_list_of_fset.rep_eq sum_list_distinct_conv_sum_set)

lemma levelSum_superset:
  "finite A \<Longrightarrow> fset (fmdom book) \<subseteq> A \<Longrightarrow> levelSum A book = restingSize book"
proof -
  assume A: "finite A" "fset (fmdom book) \<subseteq> A"
  have "levelSum (fset (fmdom book)) book = levelSum A book"
    unfolding levelSum_def
  proof (rule sum.mono_neutral_left)
    show "\<forall>i\<in>A - fset (fmdom book). qsize (queueAt book i) = 0"
      by (auto simp: queueAt_def qsize_def fmlookup_dom_iff split: option.splits)
  qed (use A in auto)
  then show ?thesis by (simp add: restingSize_levelSum)
qed

text \<open>The result of \<^verbatim>\<open>executeMarket\<close> in terms of the result of its level loop.\<close>

lemma executeMarket_walk:
  "walkLevels sd now (sortedLevels sd (oppositeSide sd b)) (oppositeSide sd b)
      \<lparr>remain = sz, notional = 0, trades = []\<rparr> = Some (book', st) \<Longrightarrow>
   executeMarket sd sz now b =
     Some (if sd = Buy then b\<lparr>asks := book'\<rparr> else b\<lparr>bids := book'\<rparr>,
           \<lparr>trades_r = trades st,
            avgPrice_r = (if sz - remain st > 0 then notional st / (sz - remain st) else 0),
            filled = sz - remain st\<rparr>)"
  by (simp add: executeMarket_def oppositeSide_def Let_def)

text \<open>The level loop of \<^verbatim>\<open>executeMarket\<close> never meets a missing level.\<close>

lemma executeMarket_walk_total:
  "\<exists>book' st. walkLevels sd now (sortedLevels sd book) book st0 = Some (book', st)"
  using walk_total[of "sortedLevels sd book" book sd now st0]
  by (auto simp: sortedLevels_set sortedLevels_distinct)

lemma opposite_update:
  "oppositeSide sd (if sd = Buy then b\<lparr>asks := book'\<rparr> else b\<lparr>bids := book'\<rparr>) = book'"
  "ownSide sd (if sd = Buy then b\<lparr>asks := book'\<rparr> else b\<lparr>bids := book'\<rparr>) = ownSide sd b"
  by (simp_all add: oppositeSide_def ownSide_def)

text \<open>Everything the later proofs need of one call of \<^verbatim>\<open>executeMarket\<close>.\<close>

lemma executeMarket_summary:
  obtains b' r st where
    "executeMarket sd sz now b = Some (b', r)"
    "walkLevels sd now (sortedLevels sd (oppositeSide sd b)) (oppositeSide sd b)
        \<lparr>remain = sz, notional = 0, trades = []\<rparr> = Some (oppositeSide sd b', st)"
    "ownSide sd b' = ownSide sd b"
    "b' = (if sd = Buy then b\<lparr>asks := oppositeSide sd b'\<rparr> else b\<lparr>bids := oppositeSide sd b'\<rparr>)"
    "trades_r r = trades st"
    "filled r = sz - remain st"
    "avgPrice_r r = (if sz - remain st > 0 then notional st / (sz - remain st) else 0)"
proof -
  obtain book' st where w: "walkLevels sd now (sortedLevels sd (oppositeSide sd b)) (oppositeSide sd b)
      \<lparr>remain = sz, notional = 0, trades = []\<rparr> = Some (book', st)"
    using executeMarket_walk_total by blast
  let ?b' = "if sd = Buy then b\<lparr>asks := book'\<rparr> else b\<lparr>bids := book'\<rparr>"
  let ?r = "\<lparr>trades_r = trades st,
            avgPrice_r = (if sz - remain st > 0 then notional st / (sz - remain st) else 0),
            filled = sz - remain st\<rparr>"
  have o: "oppositeSide sd ?b' = book'" by (rule opposite_update)
  show thesis
  proof (rule that[of ?b' ?r st])
    show "executeMarket sd sz now b = Some (?b', ?r)" by (rule executeMarket_walk[OF w])
    show "walkLevels sd now (sortedLevels sd (oppositeSide sd b)) (oppositeSide sd b)
        \<lparr>remain = sz, notional = 0, trades = []\<rparr> = Some (oppositeSide sd ?b', st)"
      using w by (simp only: o)
    show "ownSide sd ?b' = ownSide sd b" by (rule opposite_update)
    show "?b' = (if sd = Buy then b\<lparr>asks := oppositeSide sd ?b'\<rparr> else b\<lparr>bids := oppositeSide sd ?b'\<rparr>)"
      by (simp only: o)
  qed simp_all
qed

lemma sortedLevels_empty: "sortedLevels sd fmempty = []"
  by (simp add: sortedLevels_def sorted_list_of_fset.rep_eq)

lemma sortedLevels_order:
  "sorted_wrt (\<le>) (sortedLevels Buy book)" "sorted_wrt (\<ge>) (sortedLevels Sell book)"
  by (simp_all add: sortedLevels_def sorted_list_of_fset.rep_eq sorted_wrt_rev)

lemma sorted_wrt_blocks:
  "sorted_wrt R xs \<Longrightarrow> (\<And>x. R x x) \<Longrightarrow>
   sorted_wrt R (map fst (concat (map (\<lambda>x. map (Pair x) (g x)) xs)))"
proof (induction xs)
  case Nil
  then show ?case by simp
next
  case (Cons x xs)
  have blk: "map fst (map (Pair x) (g x)) = replicate (length (g x)) x"
    by (induction "g x" arbitrary: g) (simp_all add: map_replicate_const comp_def)
  have "sorted_wrt R (replicate (length (g x)) x)"
    using Cons.prems(2) by (simp add: sorted_wrt_iff_nth_less)
  moreover have "sorted_wrt R (map fst (concat (map (\<lambda>x. map (Pair x) (g x)) xs)))"
    using Cons by simp
  moreover have "\<forall>a\<in>set (replicate (length (g x)) x). \<forall>c\<in>set (map fst (concat (map (\<lambda>x. map (Pair x) (g x)) xs))). R a c"
    using Cons.prems(1) by auto
  ultimately show ?case by (simp add: sorted_wrt_append blk del: map_map)
qed

lemma priorityList_order:
  "sorted_wrt (\<le>) (map fst (priorityList Buy book))"
  "sorted_wrt (\<ge>) (map fst (priorityList Sell book))"
  unfolding priorityList_def
  by (rule sorted_wrt_blocks, rule sortedLevels_order, simp)+

lemma fillQueue_length: "length (fillQueue sd now rem xs) \<le> length xs"
  by (induction xs arbitrary: rem) auto

lemma fillQueue_price:
  "i < length (fillQueue sd now rem xs) \<Longrightarrow> price_t (fillQueue sd now rem xs ! i) = fst (xs ! i)"
proof (induction xs arbitrary: rem i)
  case Nil
  then show ?case by simp
next
  case (Cons x xs)
  obtain px ord where x: "x = (px, ord)" by (cases x)
  from Cons.prems have pos: "rem > 0" by (auto simp: x split: if_splits)
  show ?case
  proof (cases i)
    case 0
    with pos show ?thesis by (simp add: x)
  next
    case (Suc j)
    with Cons.prems pos have "j < length (fillQueue sd now (rem - min rem (size_o ord)) xs)"
      by (simp add: x)
    from Cons.IH[OF this] pos Suc show ?thesis by (simp add: x)
  qed
qed

lemma fillQueue_full:
  "Suc i < length (fillQueue sd now rem xs) \<Longrightarrow>
   size_t (fillQueue sd now rem xs ! i) = size_o (snd (xs ! i))"
proof (induction xs arbitrary: rem i)
  case Nil
  then show ?case by simp
next
  case (Cons x xs)
  obtain px ord where x: "x = (px, ord)" by (cases x)
  from Cons.prems have pos: "rem > 0" by (auto simp: x split: if_splits)
  let ?rem' = "rem - min rem (size_o ord)"
  from Cons.prems pos have len: "i < length (fillQueue sd now ?rem' xs)" by (simp add: x)
  show ?case
  proof (cases i)
    case 0
    from len have "fillQueue sd now ?rem' xs \<noteq> []" by auto
    then have "?rem' > 0" using fillQueue_nonpos[of ?rem' sd now xs] by (cases "?rem' > 0") auto
    then have "min rem (size_o ord) = size_o ord" by (simp add: min_def split: if_splits)
    with pos 0 show ?thesis by (simp add: x)
  next
    case (Suc j)
    with Cons.prems pos have "Suc j < length (fillQueue sd now ?rem' xs)" by (simp add: x)
    from Cons.IH[OF this] pos Suc show ?thesis by (simp add: x)
  qed
qed

text \<open>The resting orders that the matching loops leave in the book.\<close>

lemma restAfter_nonpos: "rem \<le> 0 \<Longrightarrow> restAfter rem xs = xs"
  by (cases xs) auto

lemma restAfter_append:
  "restAfter rem (xs @ ys) = restAfter rem xs @ restAfter (remAfter rem xs) ys"
  by (induction xs arbitrary: rem) (auto simp: restAfter_nonpos)

lemma consume_rest:
  "consume sd now px q st = (q', st') \<Longrightarrow>
     map (Pair px) q' = restAfter (remain st) (map (Pair px) q)"
proof (induction sd now px q st arbitrary: q' st' rule: consume.induct)
  case (1 sd now px st)
  then show ?case by simp
next
  case (2 sd now px head rest st)
  show ?case
  proof (cases "remain st > 0")
    case False
    with "2.prems" show ?thesis by (auto simp: restAfter_nonpos)
  next
    case pos: True
    let ?st1 = "matched sd now px head st"
    show ?thesis
    proof (cases "size_o head \<le> remain st + 1 / 10 ^ 7")
      case shift: True
      from "2.prems"(1) have eq: "consume sd now px rest ?st1 = (q', st')"
        by (simp only: consume_shift[OF pos shift])
      have sh: "size_o (head\<lparr>size_o := size_o head - min (remain st) (size_o head)\<rparr>) \<le> 1 / 10 ^ 7"
        using shift by (simp add: min_def)
      from "2.IH"(1)[OF pos refl refl refl sh eq[unfolded matched_def]] sh
      show ?thesis using pos by simp
    next
      case stay: False
      from "2.prems"(1) have q': "q' = head\<lparr>size_o := size_o head - remain st\<rparr> # rest"
        by (simp only: consume_stay[OF pos stay] prod.inject)
      have m: "min (remain st) (size_o head) = remain st" using stay by simp
      have ns: "\<not> size_o head - remain st \<le> 1 / 10 ^ 7" using stay by simp
      show ?thesis using pos ns by (simp add: q' m restAfter_nonpos)
    qed
  qed
qed

lemma walk_rest:
  "walkLevels sd now pxs book st = Some (book', st') \<Longrightarrow> distinct pxs \<Longrightarrow>
     concat (map (\<lambda>p. map (Pair p) (queueAt book' p)) pxs)
       = restAfter (remain st) (concat (map (\<lambda>p. map (Pair p) (queueAt book p)) pxs))"
proof (induction pxs arbitrary: book st)
  case Nil
  then show ?case by simp
next
  case (Cons px pxs)
  show ?case
  proof (cases "remain st > 0")
    case False
    with Cons.prems show ?thesis by (simp add: walk_done restAfter_nonpos)
  next
    case True
    show ?thesis
    proof (cases "fmlookup book px")
      case None
      with Cons.prems True show ?thesis by simp
    next
      case (Some q)
      obtain q' st1 where c: "consume sd now px q st = (q', st1)" by (cases "consume sd now px q st")
      let ?b1 = "setLevel px q' book"
      from Cons.prems(1) have w: "walkLevels sd now pxs ?b1 st1 = Some (book', st')"
        by (simp only: walk_step[OF True Some c])
      have qa: "queueAt book px = q" using Some by (simp add: queueAt_def)
      have same: "map (\<lambda>p. map (Pair p) (queueAt ?b1 p)) pxs = map (\<lambda>p. map (Pair p) (queueAt book p)) pxs"
        using Cons.prems(2) by (auto simp: queueAt_setLevel)
      from Cons.prems(2) have d: "distinct pxs" and nin: "px \<notin> set pxs" by simp_all
      from walk_frame[OF w] nin have "fmlookup book' px = fmlookup ?b1 px" by simp
      then have qb: "queueAt book' px = q'" by (simp add: queueAt_def queueAt_setLevel[of px q' book px, unfolded queueAt_def])
      from consume_trades[OF c] have r1: "remain st1 = remAfter (remain st) (map (Pair px) q)" by simp
      from Cons.IH[OF w d] consume_rest[OF c]
      show ?thesis by (simp add: same qa qb r1 restAfter_append)
    qed
  qed
qed

lemma walk_empty_levels:
  "walkLevels sd now pxs book st = Some (book', st') \<Longrightarrow>
     p |\<in>| fmdom book' \<Longrightarrow> queueAt book' p = [] \<Longrightarrow> fmlookup book' p = fmlookup book p"
proof (induction pxs arbitrary: book st)
  case Nil
  then show ?case by simp
next
  case (Cons px pxs)
  show ?case
  proof (cases "remain st > 0")
    case False
    with Cons.prems show ?thesis by (simp add: walk_done)
  next
    case True
    show ?thesis
    proof (cases "fmlookup book px")
      case None
      with Cons.prems True show ?thesis by simp
    next
      case (Some q)
      obtain q' st1 where c: "consume sd now px q st = (q', st1)" by (cases "consume sd now px q st")
      let ?b1 = "setLevel px q' book"
      from Cons.prems(1) have w: "walkLevels sd now pxs ?b1 st1 = Some (book', st')"
        by (simp only: walk_step[OF True Some c])
      from Cons.IH[OF w Cons.prems(2,3)] have l: "fmlookup book' p = fmlookup ?b1 p" .
      with Cons.prems(2,3) have "p |\<in>| fmdom ?b1" "queueAt ?b1 p = []"
        by (auto simp: fmlookup_dom_iff queueAt_def)
      then have "p \<noteq> px" by (auto simp: dom_setLevel queueAt_setLevel split: if_splits)
      with l show ?thesis by (simp add: lookup_setLevel_other)
    qed
  qed
qed

lemma sorted_list_filter_sub:
  "B |\<subseteq>| A \<Longrightarrow> sorted_list_of_fset B = filter (\<lambda>p. p |\<in>| B) (sorted_list_of_fset A)"
  by (rule sorted_distinct_set_unique)
     (auto simp: sorted_list_of_fset.rep_eq less_eq_fset.rep_eq intro: sorted_filter[where f = "\<lambda>x. x", simplified])

lemma sortedLevels_sub:
  "fmdom book' |\<subseteq>| fmdom book \<Longrightarrow>
   sortedLevels sd book' = filter (\<lambda>p. p |\<in>| fmdom book') (sortedLevels sd book)"
  by (simp add: sortedLevels_def sorted_list_filter_sub[of "fmdom book'" "fmdom book"] rev_filter)

lemma concat_map_filter_keep:
  "(\<And>x. x \<in> set xs \<Longrightarrow> \<not> P x \<Longrightarrow> f x = []) \<Longrightarrow>
   concat (map f (filter P xs)) = concat (map f xs)"
  by (induction xs) auto

lemma priorityList_sub:
  assumes "fmdom book' |\<subseteq>| fmdom book"
  shows "priorityList sd book' = concat (map (\<lambda>p. map (Pair p) (queueAt book' p)) (sortedLevels sd book))"
  unfolding priorityList_def sortedLevels_sub[OF assms]
  by (rule concat_map_filter_keep) (auto simp: queueAt_def fmlookup_dom_iff split: option.splits)

lemma serve_shape:
  "\<exists>n. n \<le> length xs \<and>
     (length (fillQueue sd now rem xs) = n \<and> restAfter rem xs = drop n xs \<or>
      n < length xs \<and> length (fillQueue sd now rem xs) = Suc n \<and>
      restAfter rem xs =
        (fst (xs ! n), (snd (xs ! n))\<lparr>size_o := size_o (snd (xs ! n)) - size_t (fillQueue sd now rem xs ! n)\<rparr>)
          # drop (Suc n) xs)"
proof (induction xs arbitrary: rem)
  case Nil
  show ?case by simp
next
  case (Cons x xs)
  obtain px ord where x: "x = (px, ord)" by (cases x)
  show ?case
  proof (cases "rem > 0")
    case False
    then have "length (fillQueue sd now rem (x # xs)) = 0 \<and> restAfter rem (x # xs) = drop 0 (x # xs)"
      by (simp add: x)
    then show ?thesis by blast
  next
    case pos: True
    let ?m = "min rem (size_o ord)"
    show ?thesis
    proof (cases "size_o ord - ?m \<le> 1 / 10 ^ 7")
      case True
      have f: "fillQueue sd now rem (x # xs) =
          \<lparr>time_t = now, price_t = px, size_t = ?m, takerSide = sd\<rparr> # fillQueue sd now (rem - ?m) xs"
        using pos by (simp add: x)
      have r: "restAfter rem (x # xs) = restAfter (rem - ?m) xs"
        using pos True by (simp add: x)
      from Cons.IH[of "rem - ?m"] obtain n where n: "n \<le> length xs"
        "length (fillQueue sd now (rem - ?m) xs) = n \<and> restAfter (rem - ?m) xs = drop n xs \<or>
         n < length xs \<and> length (fillQueue sd now (rem - ?m) xs) = Suc n \<and>
         restAfter (rem - ?m) xs =
           (fst (xs ! n), (snd (xs ! n))\<lparr>size_o := size_o (snd (xs ! n)) - size_t (fillQueue sd now (rem - ?m) xs ! n)\<rparr>)
             # drop (Suc n) xs"
        by blast
      have "Suc n \<le> length (x # xs)" using n(1) by simp
      moreover from n(2) have
        "length (fillQueue sd now rem (x # xs)) = Suc n \<and> restAfter rem (x # xs) = drop (Suc n) (x # xs) \<or>
         Suc n < length (x # xs) \<and> length (fillQueue sd now rem (x # xs)) = Suc (Suc n) \<and>
         restAfter rem (x # xs) =
           (fst ((x # xs) ! Suc n),
            (snd ((x # xs) ! Suc n))\<lparr>size_o := size_o (snd ((x # xs) ! Suc n)) - size_t (fillQueue sd now rem (x # xs) ! Suc n)\<rparr>)
             # drop (Suc (Suc n)) (x # xs)"
        unfolding f r by auto
      ultimately show ?thesis by blast
    next
      case False
      then have m: "?m = rem" by (simp add: min_def split: if_splits)
      have f: "fillQueue sd now rem (x # xs) =
          [\<lparr>time_t = now, price_t = px, size_t = ?m, takerSide = sd\<rparr>]"
        using pos by (simp add: x m fillQueue_nonpos)
      have r: "restAfter rem (x # xs) = (px, ord\<lparr>size_o := size_o ord - ?m\<rparr>) # xs"
        using pos False by (simp add: x) (simp add: m restAfter_nonpos)
      have "0 < length (x # xs) \<and> length (fillQueue sd now rem (x # xs)) = Suc 0 \<and>
         restAfter rem (x # xs) =
           (fst ((x # xs) ! 0),
            (snd ((x # xs) ! 0))\<lparr>size_o := size_o (snd ((x # xs) ! 0)) - size_t (fillQueue sd now rem (x # xs) ! 0)\<rparr>)
             # drop (Suc 0) (x # xs)"
        unfolding f r by (simp add: x)
      then show ?thesis by blast
    qed
  qed
qed

section \<open>Claims about \<^verbatim>\<open>executeMarket\<close>\<close>

text \<open>
  Claim C10 (frame property). For every book, \<^verbatim>\<open>executeMarket(side, size, now)\<close> returns
  and leaves the aggressor's own side of the book unchanged: a buy aggressor leaves the
  whole map of bids as it was, a sell aggressor the whole map of asks.
\<close>

theorem executeMarket_frame:
  "\<exists>b' r. executeMarket sd sz now b = Some (b', r) \<and>
     (sd = Buy \<longrightarrow> bids b' = bids b) \<and> (sd = Sell \<longrightarrow> asks b' = asks b)"
proof -
  obtain b' r st where e: "executeMarket sd sz now b = Some (b', r)" and o: "ownSide sd b' = ownSide sd b"
    by (rule executeMarket_summary)
  from o have "(sd = Buy \<longrightarrow> bids b' = bids b) \<and> (sd = Sell \<longrightarrow> asks b' = asks b)"
    by (cases sd) (simp_all add: ownSide_def)
  with e show ?thesis by blast
qed

theorem executeMarket_frame_witness:
  "(\<exists>b' r. executeMarket Buy 5 7 demoBook = Some (b', r) \<and> bids b' = bids demoBook) \<and>
   (\<exists>b' r. executeMarket Sell 5 7 demoBook = Some (b', r) \<and> asks b' = asks demoBook)"
  using executeMarket_frame[of Buy 5 7 demoBook] executeMarket_frame[of Sell 5 7 demoBook]
  by simp

text \<open>
  Claim C8 (empty opposite side, average fill price). Every call of \<^verbatim>\<open>executeMarket\<close>
  returns (no error is raised). When the opposite side of the book is empty, the book is
  unchanged, \<open>filled = 0\<close>, \<open>avgPrice = 0\<close> and there are no trades. In general \<open>filled\<close>
  is the sum of the sizes of the trades, \<open>avgPrice\<close> is the size-weighted mean of the
  trade prices when \<open>filled > 0\<close>, and \<open>0\<close> otherwise.
\<close>

theorem executeMarket_average:
  "\<exists>b' r. executeMarket sd sz now b = Some (b', r) \<and>
     (oppositeSide sd b = fmempty \<longrightarrow> b' = b \<and> filled r = 0 \<and> avgPrice_r r = 0 \<and> trades_r r = []) \<and>
     filled r = tradedSize (trades_r r) \<and>
     (filled r > 0 \<longrightarrow> avgPrice_r r = tradedNotional (trades_r r) / tradedSize (trades_r r)) \<and>
     (\<not> filled r > 0 \<longrightarrow> avgPrice_r r = 0)"
proof -
  let ?st0 = "\<lparr>remain = sz, notional = 0, trades = []\<rparr>"
  obtain b' r st where e: "executeMarket sd sz now b = Some (b', r)"
    and w: "walkLevels sd now (sortedLevels sd (oppositeSide sd b)) (oppositeSide sd b) ?st0
              = Some (oppositeSide sd b', st)"
    and b': "b' = (if sd = Buy then b\<lparr>asks := oppositeSide sd b'\<rparr> else b\<lparr>bids := oppositeSide sd b'\<rparr>)"
    and t: "trades_r r = trades st" and f: "filled r = sz - remain st"
    and a: "avgPrice_r r = (if sz - remain st > 0 then notional st / (sz - remain st) else 0)"
    by (rule executeMarket_summary)
  from walk_sums[OF w] have n: "notional st = tradedNotional (trades st)"
    and s: "sz - remain st = tradedSize (trades st)"
    by (simp_all add: tradedNotional_def tradedSize_def)
  have empty: "b' = b \<and> filled r = 0 \<and> avgPrice_r r = 0 \<and> trades_r r = []"
    if em: "oppositeSide sd b = fmempty"
  proof -
    from w have "oppositeSide sd b' = fmempty" "st = ?st0"
      by (simp_all add: em sortedLevels_empty)
    moreover from this(1) b' em have "b' = b"
      by (cases sd) (simp_all add: oppositeSide_def)
    ultimately show ?thesis using t f a by simp
  qed
  have "filled r = tradedSize (trades_r r)" using f s t by simp
  moreover have "filled r > 0 \<longrightarrow> avgPrice_r r = tradedNotional (trades_r r) / tradedSize (trades_r r)"
    using f a n s t by simp
  moreover have "\<not> filled r > 0 \<longrightarrow> avgPrice_r r = 0" using f a by simp
  ultimately show ?thesis using e empty by blast
qed

theorem executeMarket_average_witness:
  "(\<exists>b' r. executeMarket Buy 5 7 emptyBook = Some (b', r) \<and>
       b' = emptyBook \<and> filled r = 0 \<and> avgPrice_r r = 0 \<and> trades_r r = []) \<and>
   (\<exists>b' r. executeMarket Buy 5 7 demoBook = Some (b', r) \<and> filled r > 0 \<and>
       avgPrice_r r = tradedNotional (trades_r r) / tradedSize (trades_r r))"
proof -
  have "oppositeSide Buy emptyBook = fmempty" by (simp add: oppositeSide_def emptyBook_def)
  with executeMarket_average[of Buy 5 7 emptyBook]
  have first: "\<exists>b' r. executeMarket Buy 5 7 emptyBook = Some (b', r) \<and>
       b' = emptyBook \<and> filled r = 0 \<and> avgPrice_r r = 0 \<and> trades_r r = []"
    by blast
  have ev: "map_option (filled \<circ> snd) (executeMarket Buy 5 7 demoBook) = Some 5" by code_simp
  from executeMarket_average[of Buy 5 7 demoBook] obtain b' r where
    e: "executeMarket Buy 5 7 demoBook = Some (b', r)" and
    a: "filled r > 0 \<longrightarrow> avgPrice_r r = tradedNotional (trades_r r) / tradedSize (trades_r r)"
    by blast
  from ev e have "filled r = 5" by simp
  with e a have "\<exists>b' r. executeMarket Buy 5 7 demoBook = Some (b', r) \<and> filled r > 0 \<and>
       avgPrice_r r = tradedNotional (trades_r r) / tradedSize (trades_r r)"
    by auto
  with first show ?thesis by blast
qed

text \<open>
  Claim C4 (conservation of size), as amended. For every book, \<^verbatim>\<open>executeMarket\<close> returns;
  \<open>filled \<le> size\<close> when \<open>size \<ge> 0\<close>, and a call with \<open>size \<le> 0\<close> fills nothing and leaves
  the book unchanged. The total resting size removed from the matched side is at least
  \<open>filled\<close> and at most \<open>filled + 1e-7\<close>: a resting order left with at most \<open>1e-7\<close> after
  its trade is shifted out of its queue with that residue unfilled. When the aggressor is
  not filled completely, the size removed is exactly \<open>filled\<close>.
\<close>

theorem executeMarket_conservation:
  "\<exists>b' r. executeMarket sd sz now b = Some (b', r) \<and>
     (0 \<le> sz \<longrightarrow> filled r \<le> sz) \<and>
     (sz \<le> 0 \<longrightarrow> filled r = 0 \<and> b' = b) \<and>
     filled r \<le> restingSize (oppositeSide sd b) - restingSize (oppositeSide sd b') \<and>
     restingSize (oppositeSide sd b) - restingSize (oppositeSide sd b') \<le> filled r + 1 / 10 ^ 7 \<and>
     (filled r < sz \<longrightarrow> restingSize (oppositeSide sd b) - restingSize (oppositeSide sd b') = filled r)"
proof -
  let ?st0 = "\<lparr>remain = sz, notional = 0, trades = []\<rparr>"
  let ?book = "oppositeSide sd b"
  let ?A = "fset (fmdom ?book)"
  obtain b' r st where e: "executeMarket sd sz now b = Some (b', r)"
    and w: "walkLevels sd now (sortedLevels sd ?book) ?book ?st0 = Some (oppositeSide sd b', st)"
    and b': "b' = (if sd = Buy then b\<lparr>asks := oppositeSide sd b'\<rparr> else b\<lparr>bids := oppositeSide sd b'\<rparr>)"
    and f: "filled r = sz - remain st"
    by (rule executeMarket_summary)
  let ?book' = "oppositeSide sd b'"
  let ?removed = "restingSize ?book - restingSize ?book'"
  have "(0 \<le> sz \<longrightarrow> filled r \<le> sz) \<and> (sz \<le> 0 \<longrightarrow> filled r = 0 \<and> b' = b) \<and>
     filled r \<le> ?removed \<and> ?removed \<le> filled r + 1 / 10 ^ 7 \<and>
     (filled r < sz \<longrightarrow> ?removed = filled r)"
  proof (cases "sz \<le> 0")
    case True
    then have "remain ?st0 \<le> 0" by simp
    from walk_done[OF this] w have same: "?book' = ?book" "st = ?st0" by simp_all
    from same(1) b' have "b' = b" by (cases sd) (simp_all add: oppositeSide_def)
    with same f True show ?thesis by simp
  next
    case False
    then have sz: "0 \<le> remain ?st0" by simp
    have sub: "fset (fmdom ?book') \<subseteq> ?A" using walk_frame[OF w] by (simp add: less_eq_fset.rep_eq)
    have l0: "levelSum ?A ?book = restingSize ?book" by (simp add: restingSize_levelSum)
    have l1: "levelSum ?A ?book' = restingSize ?book'" by (rule levelSum_superset[OF _ sub]) simp
    from walk_conserve[OF w _ _ sz, of ?A] have
      "0 \<le> remain st"
      "0 \<le> (levelSum ?A ?book - levelSum ?A ?book') - (sz - remain st)"
      "(levelSum ?A ?book - levelSum ?A ?book') - (sz - remain st) \<le> 1 / 10 ^ 7"
      "remain st > 0 \<longrightarrow> levelSum ?A ?book - levelSum ?A ?book' = sz - remain st"
      by (simp_all add: sortedLevels_set)
    then show ?thesis using False unfolding l0 l1 f by auto
  qed
  with e show ?thesis by blast
qed

theorem executeMarket_conservation_witness:
  "(0::rat) \<le> 7 \<and>
   (\<exists>b' r. executeMarket Buy 7 7 demoBook = Some (b', r) \<and> filled r \<le> 7 \<and> filled r < 7 \<and>
      restingSize (oppositeSide Buy demoBook) - restingSize (oppositeSide Buy b') = filled r) \<and>
   (- 1 :: rat) \<le> 0 \<and>
   (\<exists>b' r. executeMarket Buy (- 1) 7 demoBook = Some (b', r) \<and> filled r = 0 \<and> b' = demoBook)"
proof -
  have ev: "map_option (filled \<circ> snd) (executeMarket Buy 7 7 demoBook) = Some 6" by code_simp
  from executeMarket_conservation[of Buy 7 7 demoBook] obtain b' r where
    e: "executeMarket Buy 7 7 demoBook = Some (b', r)" and
    l: "(0::rat) \<le> 7 \<longrightarrow> filled r \<le> 7" and
    c: "filled r < 7 \<longrightarrow>
          restingSize (oppositeSide Buy demoBook) - restingSize (oppositeSide Buy b') = filled r"
    by blast
  from ev e have "filled r = 6" by simp
  with e l c have first: "\<exists>b' r. executeMarket Buy 7 7 demoBook = Some (b', r) \<and> filled r \<le> 7 \<and>
      filled r < 7 \<and>
      restingSize (oppositeSide Buy demoBook) - restingSize (oppositeSide Buy b') = filled r"
    by auto
  from executeMarket_conservation[of Buy "- 1" 7 demoBook]
  have second: "\<exists>b' r. executeMarket Buy (- 1) 7 demoBook = Some (b', r) \<and> filled r = 0 \<and> b' = demoBook"
    by auto
  from first second show ?thesis by simp
qed

text \<open>The claim as stated, with the size removed equal to \<open>filled\<close> and \<open>filled \<le> size\<close>
  for every call, fails: a market buy of \<open>1 - 5e-8\<close> against one ask of size \<open>1\<close> fills
  \<open>1 - 5e-8\<close> and removes the whole order, of size \<open>1\<close>; and a call with the size \<open>-1\<close>
  returns \<open>filled = 0\<close>, which is above the size.\<close>

theorem executeMarket_conservation_counterexample:
  "executeMarket Buy (1 - 5 / 10 ^ 8) 0 dustBook = Some (emptyBook, dustResult) \<and>
   filled dustResult = 1 - 5 / 10 ^ 8 \<and>
   restingSize (oppositeSide Buy dustBook) - restingSize (oppositeSide Buy emptyBook) = 1 \<and>
   filled dustResult \<noteq> 1 \<and>
   executeMarket Buy (- 1) 0 dustBook = Some (dustBook, \<lparr>trades_r = [], avgPrice_r = 0, filled = 0\<rparr>)"
  by code_simp

text \<open>
  Claim C5 (price-time priority). \<^verbatim>\<open>executeMarket\<close> returns the trades obtained by serving
  the resting orders of the opposite side from the front of their priority list: levels in
  ascending price for a buy aggressor and in descending price for a sell aggressor, and
  the orders of one level first in, first out. The \<open>i\<close>-th trade is made at the price of the
  \<open>i\<close>-th order of that list, and every trade but the last fills its resting order
  completely, so an order receives a fill only after all orders before it are filled.
  The book it returns holds, on the opposite side, exactly the orders left behind by that
  service and in the same priority order: the first \<open>n\<close> orders of the list are gone, where
  \<open>n\<close> is the number of trades, or of trades but the last when the last order traded
  against is filled in part, and then that order stays at the head of its queue with its
  size reduced by the trade; the orders behind are untouched. No level is added, a level
  whose queue is emptied is removed, and the aggressor's own side is unchanged.
\<close>

theorem executeMarket_priority:
  "\<exists>b' r. executeMarket sd sz now b = Some (b', r) \<and>
     trades_r r = fillQueue sd now sz (priorityList sd (oppositeSide sd b)) \<and>
     length (trades_r r) \<le> length (priorityList sd (oppositeSide sd b)) \<and>
     (\<forall>i. i < length (trades_r r) \<longrightarrow>
          price_t (trades_r r ! i) = fst (priorityList sd (oppositeSide sd b) ! i)) \<and>
     (\<forall>i. Suc i < length (trades_r r) \<longrightarrow>
          size_t (trades_r r ! i) = size_o (snd (priorityList sd (oppositeSide sd b) ! i))) \<and>
     (sd = Buy \<longrightarrow> sorted_wrt (\<le>) (map fst (priorityList sd (oppositeSide sd b)))) \<and>
     (sd = Sell \<longrightarrow> sorted_wrt (\<ge>) (map fst (priorityList sd (oppositeSide sd b)))) \<and>
     priorityList sd (oppositeSide sd b') = restAfter sz (priorityList sd (oppositeSide sd b)) \<and>
     (\<exists>n. n \<le> length (priorityList sd (oppositeSide sd b)) \<and>
        (length (trades_r r) = n \<and>
         priorityList sd (oppositeSide sd b') = drop n (priorityList sd (oppositeSide sd b)) \<or>
         n < length (priorityList sd (oppositeSide sd b)) \<and> length (trades_r r) = Suc n \<and>
         priorityList sd (oppositeSide sd b') =
           (fst (priorityList sd (oppositeSide sd b) ! n),
            (snd (priorityList sd (oppositeSide sd b) ! n))
              \<lparr>size_o := size_o (snd (priorityList sd (oppositeSide sd b) ! n)) - size_t (trades_r r ! n)\<rparr>)
             # drop (Suc n) (priorityList sd (oppositeSide sd b)))) \<and>
     fmdom (oppositeSide sd b') |\<subseteq>| fmdom (oppositeSide sd b) \<and>
     (\<forall>p. p |\<in>| fmdom (oppositeSide sd b') \<and> queueAt (oppositeSide sd b') p = [] \<longrightarrow>
          fmlookup (oppositeSide sd b') p = fmlookup (oppositeSide sd b) p) \<and>
     ownSide sd b' = ownSide sd b"
proof -
  let ?st0 = "\<lparr>remain = sz, notional = 0, trades = []\<rparr>"
  let ?book = "oppositeSide sd b"
  let ?pl = "priorityList sd ?book"
  obtain b' r st where e: "executeMarket sd sz now b = Some (b', r)"
    and w: "walkLevels sd now (sortedLevels sd ?book) ?book ?st0 = Some (oppositeSide sd b', st)"
    and o: "ownSide sd b' = ownSide sd b"
    and t: "trades_r r = trades st"
    by (rule executeMarket_summary)
  let ?book' = "oppositeSide sd b'"
  from walk_trades[OF w sortedLevels_distinct] t
  have tr: "trades_r r = fillQueue sd now sz ?pl" by (simp add: priorityList_def)
  have sub: "fmdom ?book' |\<subseteq>| fmdom ?book" using walk_frame[OF w] by simp
  have "priorityList sd ?book' =
          concat (map (\<lambda>p. map (Pair p) (queueAt ?book' p)) (sortedLevels sd ?book))"
    by (rule priorityList_sub[OF sub])
  also have "\<dots> = restAfter (remain ?st0) (concat (map (\<lambda>p. map (Pair p) (queueAt ?book p)) (sortedLevels sd ?book)))"
    by (rule walk_rest[OF w sortedLevels_distinct])
  also have "\<dots> = restAfter sz ?pl" by (simp add: priorityList_def)
  finally have rs: "priorityList sd ?book' = restAfter sz ?pl" .
  have "length (trades_r r) \<le> length ?pl" unfolding tr by (rule fillQueue_length)
  moreover have "\<forall>i. i < length (trades_r r) \<longrightarrow> price_t (trades_r r ! i) = fst (?pl ! i)"
    unfolding tr by (simp add: fillQueue_price)
  moreover have "\<forall>i. Suc i < length (trades_r r) \<longrightarrow> size_t (trades_r r ! i) = size_o (snd (?pl ! i))"
    unfolding tr by (simp add: fillQueue_full)
  moreover have "sd = Buy \<longrightarrow> sorted_wrt (\<le>) (map fst ?pl)" by (simp add: priorityList_order)
  moreover have "sd = Sell \<longrightarrow> sorted_wrt (\<ge>) (map fst ?pl)" by (simp add: priorityList_order)
  moreover have "\<exists>n. n \<le> length ?pl \<and>
        (length (trades_r r) = n \<and> priorityList sd ?book' = drop n ?pl \<or>
         n < length ?pl \<and> length (trades_r r) = Suc n \<and>
         priorityList sd ?book' =
           (fst (?pl ! n), (snd (?pl ! n))\<lparr>size_o := size_o (snd (?pl ! n)) - size_t (trades_r r ! n)\<rparr>)
             # drop (Suc n) ?pl)"
    unfolding tr rs by (rule serve_shape)
  moreover have "\<forall>p. p |\<in>| fmdom ?book' \<and> queueAt ?book' p = [] \<longrightarrow> fmlookup ?book' p = fmlookup ?book p"
    using walk_empty_levels[OF w] by blast
  ultimately show ?thesis using e tr rs sub o by blast
qed

text \<open>On the example book: a buy of \<open>5\<close> fills \<open>A\<close> (size \<open>2\<close>) and then \<open>B\<close> (size \<open>3\<close>) at
  \<open>1.00\<close> and leaves \<open>C\<close>; a buy of \<open>4\<close> fills \<open>A\<close> and then \<open>2\<close> of \<open>B\<close>, which stays first
  in the book with size \<open>1\<close>; a sell of \<open>5\<close> fills the bid at \<open>0.99\<close> before the bid at \<open>0.95\<close>
  that was submitted earlier, and leaves no bid.\<close>

theorem executeMarket_priority_witness:
  "(\<exists>b' r. executeMarket Buy 5 7 demoBook = Some (b', r) \<and>
      trades_r r = [\<lparr>time_t = 7, price_t = 1, size_t = 2, takerSide = Buy\<rparr>,
                    \<lparr>time_t = 7, price_t = 1, size_t = 3, takerSide = Buy\<rparr>] \<and>
      priorityList Buy (oppositeSide Buy b') = [(105 / 100, limitOrder ''C'' Sell (105 / 100) 1)]) \<and>
   (\<exists>b' r. executeMarket Buy 4 7 demoBook = Some (b', r) \<and>
      trades_r r = [\<lparr>time_t = 7, price_t = 1, size_t = 2, takerSide = Buy\<rparr>,
                    \<lparr>time_t = 7, price_t = 1, size_t = 2, takerSide = Buy\<rparr>] \<and>
      priorityList Buy (oppositeSide Buy b') =
        [(1, limitOrder ''B'' Sell 1 1), (105 / 100, limitOrder ''C'' Sell (105 / 100) 1)]) \<and>
   (\<exists>b' r. executeMarket Sell 5 7 demoBook = Some (b', r) \<and>
      trades_r r = [\<lparr>time_t = 7, price_t = 99 / 100, size_t = 4, takerSide = Sell\<rparr>,
                    \<lparr>time_t = 7, price_t = 95 / 100, size_t = 1, takerSide = Sell\<rparr>] \<and>
      priorityList Sell (oppositeSide Sell b') = [])"
proof -
  have b5: "fillQueue Buy 7 5 (priorityList Buy (oppositeSide Buy demoBook)) =
       [\<lparr>time_t = 7, price_t = 1, size_t = 2, takerSide = Buy\<rparr>,
        \<lparr>time_t = 7, price_t = 1, size_t = 3, takerSide = Buy\<rparr>]"
    by code_simp
  have r5: "restAfter 5 (priorityList Buy (oppositeSide Buy demoBook)) =
       [(105 / 100, limitOrder ''C'' Sell (105 / 100) 1)]"
    by code_simp
  have b4: "fillQueue Buy 7 4 (priorityList Buy (oppositeSide Buy demoBook)) =
       [\<lparr>time_t = 7, price_t = 1, size_t = 2, takerSide = Buy\<rparr>,
        \<lparr>time_t = 7, price_t = 1, size_t = 2, takerSide = Buy\<rparr>]"
    by code_simp
  have r4: "restAfter 4 (priorityList Buy (oppositeSide Buy demoBook)) =
       [(1, limitOrder ''B'' Sell 1 1), (105 / 100, limitOrder ''C'' Sell (105 / 100) 1)]"
    by code_simp
  have s5: "fillQueue Sell 7 5 (priorityList Sell (oppositeSide Sell demoBook)) =
       [\<lparr>time_t = 7, price_t = 99 / 100, size_t = 4, takerSide = Sell\<rparr>,
        \<lparr>time_t = 7, price_t = 95 / 100, size_t = 1, takerSide = Sell\<rparr>]"
    by code_simp
  have q5: "restAfter 5 (priorityList Sell (oppositeSide Sell demoBook)) = []"
    by code_simp
  from executeMarket_priority[of Buy 5 7 demoBook]
  have first: "\<exists>b' r. executeMarket Buy 5 7 demoBook = Some (b', r) \<and>
      trades_r r = [\<lparr>time_t = 7, price_t = 1, size_t = 2, takerSide = Buy\<rparr>,
                    \<lparr>time_t = 7, price_t = 1, size_t = 3, takerSide = Buy\<rparr>] \<and>
      priorityList Buy (oppositeSide Buy b') = [(105 / 100, limitOrder ''C'' Sell (105 / 100) 1)]"
    unfolding b5 r5 by blast
  from executeMarket_priority[of Buy 4 7 demoBook]
  have second: "\<exists>b' r. executeMarket Buy 4 7 demoBook = Some (b', r) \<and>
      trades_r r = [\<lparr>time_t = 7, price_t = 1, size_t = 2, takerSide = Buy\<rparr>,
                    \<lparr>time_t = 7, price_t = 1, size_t = 2, takerSide = Buy\<rparr>] \<and>
      priorityList Buy (oppositeSide Buy b') =
        [(1, limitOrder ''B'' Sell 1 1), (105 / 100, limitOrder ''C'' Sell (105 / 100) 1)]"
    unfolding b4 r4 by blast
  from executeMarket_priority[of Sell 5 7 demoBook]
  have third: "\<exists>b' r. executeMarket Sell 5 7 demoBook = Some (b', r) \<and>
      trades_r r = [\<lparr>time_t = 7, price_t = 99 / 100, size_t = 4, takerSide = Sell\<rparr>,
                    \<lparr>time_t = 7, price_t = 95 / 100, size_t = 1, takerSide = Sell\<rparr>] \<and>
      priorityList Sell (oppositeSide Sell b') = []"
    unfolding s5 q5 by blast
  from first second third show ?thesis by blast
qed

section \<open>Claims about \<^verbatim>\<open>fillPosition\<close>\<close>

text \<open>
  Claim C7 (flip correctness). For an account long \<open>5\<close> at average entry price \<open>10\<close>, one
  sell fill of size \<open>8\<close> at price \<open>12\<close> gives \<open>position = -3\<close>, \<open>avgPrice = 12\<close> and adds
  \<open>(12 - 10) * 5 = 10\<close> to the realized profit; the cash grows by \<open>12 * 8 = 96\<close>.
\<close>

theorem fillPosition_flip:
  "fillPosition Sell [\<lparr>time_t = t, price_t = 12, size_t = 8, takerSide = ts\<rparr>]
       \<lparr>cash = c, position = 5, avgPrice = 10, realized = r\<rparr>
     = \<lparr>cash = c + 96, position = - 3, avgPrice = 12, realized = r + 10\<rparr>"
  by (simp add: fillPosition_def fillStep_def Let_def)

text \<open>
  Claim C1 (opening a position from flat), as amended. For a flat account
  (\<open>position = 0\<close>, \<open>avgPrice = 0\<close>) and one fill of price \<open>p > 0\<close> and size \<open>s\<close>: when
  \<open>s \<ge> 1e-8\<close>, a buy fill gives \<open>position = s\<close> with \<open>avgPrice = p\<close>, and a sell fill gives
  \<open>position = -s\<close>; when \<open>0 < s < 1e-8\<close>, the position is below the dust threshold and both
  sides give \<open>position = 0\<close> with \<open>avgPrice = 0\<close>. The cash is debited (buy) or credited
  (sell) by \<open>p * s\<close> and the realized profit is unchanged.
\<close>

theorem fillPosition_open:
  assumes "position a = 0" and "avgPrice a = 0" and "0 < price_t f" and "0 < size_t f"
  shows "(1 / 10 ^ 8 \<le> size_t f \<longrightarrow>
            position (fillPosition Buy [f] a) = size_t f \<and>
            avgPrice (fillPosition Buy [f] a) = price_t f \<and>
            position (fillPosition Sell [f] a) = - size_t f) \<and>
         (size_t f < 1 / 10 ^ 8 \<longrightarrow>
            position (fillPosition Buy [f] a) = 0 \<and> avgPrice (fillPosition Buy [f] a) = 0 \<and>
            position (fillPosition Sell [f] a) = 0 \<and> avgPrice (fillPosition Sell [f] a) = 0) \<and>
         cash (fillPosition Buy [f] a) = cash a - price_t f * size_t f \<and>
         cash (fillPosition Sell [f] a) = cash a + price_t f * size_t f \<and>
         realized (fillPosition Buy [f] a) = realized a \<and>
         realized (fillPosition Sell [f] a) = realized a"
  using assms by (simp add: fillPosition_def fillStep_def Let_def)

theorem fillPosition_open_witness:
  "position flatAccount = 0 \<and> avgPrice flatAccount = 0 \<and>
   position (fillPosition Buy [fillOf Buy 10 1] flatAccount) = 1 \<and>
   avgPrice (fillPosition Buy [fillOf Buy 10 1] flatAccount) = 10 \<and>
   position (fillPosition Sell [fillOf Sell 10 1] flatAccount) = - 1 \<and>
   position (fillPosition Buy [fillOf Buy 10 (1 / 10 ^ 9)] flatAccount) = 0 \<and>
   avgPrice (fillPosition Buy [fillOf Buy 10 (1 / 10 ^ 9)] flatAccount) = 0"
  using fillPosition_open[of flatAccount "fillOf Buy 10 1"]
        fillPosition_open[of flatAccount "fillOf Sell 10 1"]
        fillPosition_open[of flatAccount "fillOf Buy 10 (1 / 10 ^ 9)"]
  by (simp add: flatAccount_def fillOf_def)

text \<open>The claim as stated fails in two ways. A sell fill from flat leaves \<open>avgPrice = 0\<close>,
  not the fill price: the branch for \<open>newPos = 0\<close> sets \<^verbatim>\<open>newAvg = -newAvg\<close>. And a fill
  below the dust threshold opens no position.\<close>

theorem fillPosition_open_counterexample:
  "fillPosition Sell [fillOf Sell 10 1] flatAccount
     = \<lparr>cash = 10010, position = - 1, avgPrice = 0, realized = 0\<rparr> \<and>
   fillPosition Buy [fillOf Buy 10 (1 / 10 ^ 9)] flatAccount
     = \<lparr>cash = 10000 - 10 / 10 ^ 9, position = 0, avgPrice = 0, realized = 0\<rparr>"
  by (simp add: fillPosition_def fillStep_def Let_def flatAccount_def fillOf_def)

lemma fillStep_cash:
  "cash (fillStep sd a f) = (if sd = Buy then cash a - price_t f * size_t f else cash a + price_t f * size_t f)"
  by (auto simp: fillStep_def Let_def min_def algebra_simps)

lemma foldl_fillStep_cash:
  "cash (foldl (fillStep sd) a fs) =
     (if sd = Buy then cash a - tradedNotional fs else cash a + tradedNotional fs)"
  by (induction fs arbitrary: a) (auto simp: fillStep_cash tradedNotional_def algebra_simps)

lemma fillPosition_cash:
  "cash (fillPosition sd fs a) =
     (if sd = Buy then cash a - tradedNotional fs else cash a + tradedNotional fs)"
  by (simp add: fillPosition_def Let_def foldl_fillStep_cash tradedNotional_def)

lemma fillPosition_realized:
  "realized (fillPosition sd fs a) = realized (foldl (fillStep sd) a fs)"
  by (simp add: fillPosition_def Let_def)

lemma sum_list_mset_cong: "mset fs = mset gs \<Longrightarrow> sum_list (map g fs) = (sum_list (map g gs) :: rat)"
proof -
  assume "mset fs = mset gs"
  then have "sum_mset (image_mset g (mset fs)) = sum_mset (image_mset g (mset gs))" by simp
  then show ?thesis by (simp only: mset_map[symmetric] sum_mset_sum_list)
qed

lemma zero_sizes:
  "\<forall>f\<in>set fs. 0 \<le> size_t f \<Longrightarrow> tradedSize fs \<le> 0 \<Longrightarrow> \<forall>f\<in>set fs. size_t f = 0"
proof (induction fs)
  case Nil
  then show ?case by simp
next
  case (Cons f fs)
  have "0 \<le> tradedSize fs" using Cons.prems(1) by (auto simp: tradedSize_def intro!: sum_list_nonneg)
  with Cons.prems have "size_t f = 0" "tradedSize fs \<le> 0" by (auto simp: tradedSize_def)
  with Cons show ?case by simp
qed

lemma closedPnL_zero: "\<forall>f\<in>set fs. size_t f = 0 \<Longrightarrow> closedPnL sd avg fs = 0"
  by (induction fs) (auto simp: closedPnL_def)

text \<open>Fills that extend the exposure realize nothing.\<close>

lemma realized_extend_buy:
  "0 \<le> position a \<Longrightarrow> \<forall>f\<in>set fs. 0 \<le> size_t f \<Longrightarrow>
   realized (foldl (fillStep Buy) a fs) = realized a"
proof (induction fs arbitrary: a)
  case Nil
  then show ?case by simp
next
  case (Cons f fs)
  have "0 \<le> position (fillStep Buy a f)" "realized (fillStep Buy a f) = realized a"
    using Cons.prems by (simp_all add: fillStep_def Let_def)
  with Cons.IH[of "fillStep Buy a f"] Cons.prems(2) show ?case by simp
qed

lemma realized_extend_sell:
  "position a \<le> 0 \<Longrightarrow> \<forall>f\<in>set fs. 0 \<le> size_t f \<Longrightarrow>
   realized (foldl (fillStep Sell) a fs) = realized a"
proof (induction fs arbitrary: a)
  case Nil
  then show ?case by simp
next
  case (Cons f fs)
  have "position (fillStep Sell a f) \<le> 0" "realized (fillStep Sell a f) = realized a"
    using Cons.prems by (simp_all add: fillStep_def Let_def)
  with Cons.IH[of "fillStep Sell a f"] Cons.prems(2) show ?case by simp
qed

text \<open>Fills that only close exposure realize against the unchanged average.\<close>

lemma realized_close_buy:
  "position a < 0 \<Longrightarrow> \<forall>f\<in>set fs. 0 \<le> size_t f \<Longrightarrow> tradedSize fs \<le> - position a \<Longrightarrow>
   realized (foldl (fillStep Buy) a fs) = realized a + closedPnL Buy (avgPrice a) fs"
proof (induction fs arbitrary: a)
  case Nil
  then show ?case by (simp add: closedPnL_def)
next
  case (Cons f fs)
  let ?a1 = "fillStep Buy a f"
  have nn: "0 \<le> tradedSize fs" using Cons.prems(2) by (auto simp: tradedSize_def intro!: sum_list_nonneg)
  have le: "size_t f \<le> - position a" using Cons.prems(3) nn by (simp add: tradedSize_def)
  have f0: "0 \<le> size_t f" using Cons.prems(2) by simp
  have a1: "position ?a1 = position a + size_t f" "avgPrice ?a1 = avgPrice a"
    "realized ?a1 = realized a + (avgPrice a - price_t f) * size_t f"
    using Cons.prems(1) le by (simp_all add: fillStep_def Let_def min_def)
  have rest: "tradedSize fs \<le> - position ?a1" using Cons.prems(3) by (simp add: a1 tradedSize_def)
  have all: "\<forall>f\<in>set fs. 0 \<le> size_t f" using Cons.prems(2) by simp
  show ?case
  proof (cases "position ?a1 < 0")
    case True
    from Cons.IH[OF True all rest] show ?thesis by (simp add: a1 closedPnL_def)
  next
    case False
    with le a1 have z: "position ?a1 = 0" by simp
    with rest have "tradedSize fs \<le> 0" by simp
    from zero_sizes[OF all this] have "closedPnL Buy (avgPrice a) fs = 0" by (rule closedPnL_zero)
    moreover have "realized (foldl (fillStep Buy) ?a1 fs) = realized ?a1"
      using z all by (simp add: realized_extend_buy)
    ultimately show ?thesis by (simp add: a1 closedPnL_def)
  qed
qed

lemma realized_close_sell:
  "0 < position a \<Longrightarrow> \<forall>f\<in>set fs. 0 \<le> size_t f \<Longrightarrow> tradedSize fs \<le> position a \<Longrightarrow>
   realized (foldl (fillStep Sell) a fs) = realized a + closedPnL Sell (avgPrice a) fs"
proof (induction fs arbitrary: a)
  case Nil
  then show ?case by (simp add: closedPnL_def)
next
  case (Cons f fs)
  let ?a1 = "fillStep Sell a f"
  have nn: "0 \<le> tradedSize fs" using Cons.prems(2) by (auto simp: tradedSize_def intro!: sum_list_nonneg)
  have le: "size_t f \<le> position a" using Cons.prems(3) nn by (simp add: tradedSize_def)
  have f0: "0 \<le> size_t f" using Cons.prems(2) by simp
  have a1: "position ?a1 = position a - size_t f" "avgPrice ?a1 = avgPrice a"
    "realized ?a1 = realized a + (price_t f - avgPrice a) * size_t f"
    using Cons.prems(1) le by (simp_all add: fillStep_def Let_def min_def)
  have rest: "tradedSize fs \<le> position ?a1" using Cons.prems(3) by (simp add: a1 tradedSize_def)
  have all: "\<forall>f\<in>set fs. 0 \<le> size_t f" using Cons.prems(2) by simp
  show ?case
  proof (cases "0 < position ?a1")
    case True
    from Cons.IH[OF True all rest] show ?thesis by (simp add: a1 closedPnL_def)
  next
    case False
    with le a1 have z: "position ?a1 = 0" by simp
    with rest have "tradedSize fs \<le> 0" by simp
    from zero_sizes[OF all this] have "closedPnL Sell (avgPrice a) fs = 0" by (rule closedPnL_zero)
    moreover have "realized (foldl (fillStep Sell) ?a1 fs) = realized ?a1"
      using z all by (simp add: realized_extend_sell)
    ultimately show ?thesis by (simp add: a1 closedPnL_def)
  qed
qed

lemma realized_staysOnSide:
  assumes nn: "\<forall>f\<in>set fs. 0 \<le> size_t f" and st: "staysOnSide sd a fs"
  shows "realized (fillPosition sd fs a) =
     realized a + (if sd = Buy \<and> position a < 0 \<or> sd = Sell \<and> 0 < position a
                   then closedPnL sd (avgPrice a) fs else 0)"
proof (cases sd)
  case Buy
  show ?thesis
  proof (cases "position a < 0")
    case True
    with st Buy have "tradedSize fs \<le> - position a" by (simp add: staysOnSide_def)
    from realized_close_buy[OF True nn this] True Buy show ?thesis
      by (simp add: fillPosition_realized)
  next
    case False
    then have "0 \<le> position a" by simp
    from realized_extend_buy[OF this nn] False Buy show ?thesis
      by (simp add: fillPosition_realized)
  qed
next
  case Sell
  show ?thesis
  proof (cases "0 < position a")
    case True
    with st Sell have "tradedSize fs \<le> position a" by (simp add: staysOnSide_def)
    from realized_close_sell[OF True nn this] True Sell show ?thesis
      by (simp add: fillPosition_realized)
  next
    case False
    then have "position a \<le> 0" by simp
    from realized_extend_sell[OF this nn] False Sell show ?thesis
      by (simp add: fillPosition_realized)
  qed
qed

lemma staysOnSide_mset:
  assumes "mset fs = mset gs"
  shows "staysOnSide sd a fs = staysOnSide sd a gs"
proof -
  have "tradedSize fs = tradedSize gs"
    unfolding tradedSize_def by (rule sum_list_mset_cong[OF assms])
  then show ?thesis by (simp add: staysOnSide_def)
qed

lemma closedPnL_mset:
  assumes "mset fs = mset gs"
  shows "closedPnL sd avg fs = closedPnL sd avg gs"
  unfolding closedPnL_def
  by (simp only: sum_list_mset_cong[OF assms])

text \<open>
  Claim C3 (order independence within a batch), as amended. For every starting account
  and every batch of fills of one side, the final cash is the same for every permutation
  of the batch. The final realized profit is the same for every permutation when the fill
  sizes are not negative and the batch does not take the position through zero, that is,
  when it extends the exposure or its total size is at most the opposite position.
\<close>

theorem fillPosition_order_independent:
  assumes "mset fs = mset gs"
  shows "cash (fillPosition sd fs a) = cash (fillPosition sd gs a) \<and>
         ((\<forall>f\<in>set fs. 0 \<le> size_t f) \<and> staysOnSide sd a fs \<longrightarrow>
            realized (fillPosition sd fs a) = realized (fillPosition sd gs a))"
proof -
  have "tradedNotional fs = tradedNotional gs"
    unfolding tradedNotional_def by (rule sum_list_mset_cong[OF assms])
  then have c: "cash (fillPosition sd fs a) = cash (fillPosition sd gs a)"
    by (simp add: fillPosition_cash)
  have r: "realized (fillPosition sd fs a) = realized (fillPosition sd gs a)"
    if nn: "\<forall>f\<in>set fs. 0 \<le> size_t f" and st: "staysOnSide sd a fs"
  proof -
    have "set fs = set gs" using assms by (rule mset_eq_setD)
    with nn have nn': "\<forall>f\<in>set gs. 0 \<le> size_t f" by simp
    from st have st': "staysOnSide sd a gs" by (simp add: staysOnSide_mset[OF assms])
    show ?thesis
      by (simp only: realized_staysOnSide[OF nn st] realized_staysOnSide[OF nn' st']
                     closedPnL_mset[OF assms])
  qed
  from c r show ?thesis by blast
qed

theorem fillPosition_order_independent_witness:
  "mset [fillOf Buy 8 2, fillOf Buy 12 3] = mset [fillOf Buy 12 3, fillOf Buy 8 2] \<and>
   cash (fillPosition Buy [fillOf Buy 8 2, fillOf Buy 12 3] shortAccount)
     = cash (fillPosition Buy [fillOf Buy 12 3, fillOf Buy 8 2] shortAccount) \<and>
   staysOnSide Buy shortAccount [fillOf Buy 8 2, fillOf Buy 12 3] \<and>
   realized (fillPosition Buy [fillOf Buy 8 2, fillOf Buy 12 3] shortAccount)
     = realized (fillPosition Buy [fillOf Buy 12 3, fillOf Buy 8 2] shortAccount)"
proof -
  have m: "mset [fillOf Buy 8 2, fillOf Buy 12 3] = mset [fillOf Buy 12 3, fillOf Buy 8 2]"
    by (simp add: add.commute)
  have s: "staysOnSide Buy shortAccount [fillOf Buy 8 2, fillOf Buy 12 3]"
    by (simp add: staysOnSide_def shortAccount_def tradedSize_def fillOf_def)
  have n: "\<forall>f\<in>set [fillOf Buy 8 2, fillOf Buy 12 3]. 0 \<le> size_t f"
    by (simp add: fillOf_def)
  from fillPosition_order_independent[OF m, of Buy shortAccount] m s n
  show ?thesis by blast
qed

text \<open>The claim as stated fails for the realized profit: from short \<open>5\<close> at \<open>10\<close>, buy
  fills of \<open>5\<close> at \<open>8\<close> and \<open>5\<close> at \<open>12\<close> realize \<open>10\<close> in this order and \<open>-10\<close> in the
  other, since only the first fill closes the short.\<close>

theorem fillPosition_order_independent_counterexample:
  "mset [fillOf Buy 8 5, fillOf Buy 12 5] = mset [fillOf Buy 12 5, fillOf Buy 8 5] \<and>
   realized (fillPosition Buy [fillOf Buy 8 5, fillOf Buy 12 5] shortAccount) = 10 \<and>
   realized (fillPosition Buy [fillOf Buy 12 5, fillOf Buy 8 5] shortAccount) = - 10"
  by (simp add: fillPosition_def fillStep_def Let_def shortAccount_def fillOf_def add.commute)

section \<open>Claims about \<^verbatim>\<open>placeAndMatch\<close>\<close>

lemma crosses_crossesBook:
  "crosses ord (if side_o ord = Buy then bestAsk b else bestBid b) = crossesBook ord b"
  by (cases "side_o ord") (auto simp: crosses_def crossesBook_def split: option.splits)

lemma placeAndMatch_market:
  "kind_o ord = Market \<Longrightarrow> executeMarket (side_o ord) (size_o ord) now b = Some (b', r) \<Longrightarrow>
   placeAndMatch ord now b = Some (b', \<lparr>trades_p = trades_r r, remaining = None\<rparr>)"
  by (simp add: placeAndMatch_def)

lemma placeAndMatch_cross:
  "kind_o ord = Limit \<Longrightarrow> crossesBook ord b \<Longrightarrow>
   executeMarket (side_o ord) (size_o ord) now b = Some (b', r) \<Longrightarrow>
   placeAndMatch ord now b =
     (if size_o ord - filled r > 1 / 10 ^ 8
      then Some (add (ord\<lparr>size_o := size_o ord - filled r\<rparr>) b',
                 \<lparr>trades_p = trades_r r, remaining = Some (ord\<lparr>size_o := size_o ord - filled r\<rparr>)\<rparr>)
      else Some (b', \<lparr>trades_p = trades_r r, remaining = None\<rparr>))"
  unfolding placeAndMatch_def Let_def crosses_crossesBook by simp

lemma placeAndMatch_rest:
  "kind_o ord = Limit \<Longrightarrow> \<not> crossesBook ord b \<Longrightarrow>
   placeAndMatch ord now b = Some (add ord b, \<lparr>trades_p = [], remaining = Some ord\<rparr>)"
  unfolding placeAndMatch_def Let_def crosses_crossesBook by simp

lemma add_sides:
  "ownSide (side_o ord) (add ord b) = addLevel ord (ownSide (side_o ord) b)"
  "oppositeSide (side_o ord) (add ord b) = oppositeSide (side_o ord) b"
  by (cases "side_o ord"; simp add: add_def ownSide_def oppositeSide_def)+

lemma queueAt_addLevel:
  "queueAt (addLevel ord book) px =
     (if px = roundTick (price_o ord) then queueAt book px @ [ord\<lparr>price_o := roundTick (price_o ord)\<rparr>]
      else queueAt book px)"
  by (simp add: addLevel_def queueAt_def Let_def)

lemma dom_addLevel: "fmdom (addLevel ord book) = finsert (roundTick (price_o ord)) (fmdom book)"
  by (simp add: addLevel_def Let_def)

text \<open>
  Claim C9 (a crossing limit order is not price-protected). There is a book and a limit buy
  whose price crosses the best ask for which \<^verbatim>\<open>placeAndMatch\<close> trades at a price above the
  limit, and a book and a crossing limit sell that trades below its limit: on the example
  book a limit buy of \<open>6\<close> at \<open>1.00\<close> also takes the ask at \<open>1.05\<close>, and a limit sell of \<open>5\<close> at
  \<open>0.99\<close> also hits the bid at \<open>0.95\<close>.
\<close>

theorem placeAndMatch_not_price_protected:
  "(\<exists>b ord now b' res t. kind_o ord = Limit \<and> side_o ord = Buy \<and> crossesBook ord b \<and>
      placeAndMatch ord now b = Some (b', res) \<and> t \<in> set (trades_p res) \<and> price_o ord < price_t t) \<and>
   (\<exists>b ord now b' res t. kind_o ord = Limit \<and> side_o ord = Sell \<and> crossesBook ord b \<and>
      placeAndMatch ord now b = Some (b', res) \<and> t \<in> set (trades_p res) \<and> price_t t < price_o ord)"
proof
  let ?ord = "limitOrder ''X'' Buy 1 6"
  let ?t = "\<lparr>time_t = 7, price_t = 105 / 100, size_t = 1, takerSide = Buy\<rparr>"
  have "map_option (trades_p \<circ> snd) (placeAndMatch ?ord 7 demoBook) =
          Some [\<lparr>time_t = 7, price_t = 1, size_t = 2, takerSide = Buy\<rparr>,
                \<lparr>time_t = 7, price_t = 1, size_t = 3, takerSide = Buy\<rparr>, ?t]"
    by code_simp
  then obtain b' res where p: "placeAndMatch ?ord 7 demoBook = Some (b', res)"
    and t: "?t \<in> set (trades_p res)" by auto
  have k: "kind_o ?ord = Limit" "side_o ?ord = Buy" "price_o ?ord < price_t ?t"
    by (simp_all add: limitOrder_def)
  have "bestAsk demoBook = Some 1" by code_simp
  then have c: "crossesBook ?ord demoBook" by (simp add: crossesBook_def limitOrder_def)
  from k c p t
  show "\<exists>b ord now b' res t. kind_o ord = Limit \<and> side_o ord = Buy \<and> crossesBook ord b \<and>
      placeAndMatch ord now b = Some (b', res) \<and> t \<in> set (trades_p res) \<and> price_o ord < price_t t"
    by blast
next
  let ?ord = "limitOrder ''Y'' Sell (99 / 100) 5"
  let ?t = "\<lparr>time_t = 7, price_t = 95 / 100, size_t = 1, takerSide = Sell\<rparr>"
  have "map_option (trades_p \<circ> snd) (placeAndMatch ?ord 7 demoBook) =
          Some [\<lparr>time_t = 7, price_t = 99 / 100, size_t = 4, takerSide = Sell\<rparr>, ?t]"
    by code_simp
  then obtain b' res where p: "placeAndMatch ?ord 7 demoBook = Some (b', res)"
    and t: "?t \<in> set (trades_p res)" by auto
  have k: "kind_o ?ord = Limit" "side_o ?ord = Sell" "price_t ?t < price_o ?ord"
    by (simp_all add: limitOrder_def)
  have "bestBid demoBook = Some (99 / 100)" by code_simp
  then have c: "crossesBook ?ord demoBook" by (simp add: crossesBook_def limitOrder_def)
  from k c p t
  show "\<exists>b ord now b' res t. kind_o ord = Limit \<and> side_o ord = Sell \<and> crossesBook ord b \<and>
      placeAndMatch ord now b = Some (b', res) \<and> t \<in> set (trades_p res) \<and> price_t t < price_o ord"
    by blast
qed

text \<open>
  Claim C6 (routing of \<^verbatim>\<open>placeAndMatch\<close>), as amended. \<^verbatim>\<open>placeAndMatch\<close> always returns.
  A market order is executed by \<^verbatim>\<open>executeMarket\<close> for its size, nothing is returned as
  \<open>remaining\<close> and its own side of the book is unchanged. A limit order whose price crosses
  the best opposing price is executed by \<^verbatim>\<open>executeMarket\<close> for its full size; an unfilled
  remainder greater than \<open>1e-8\<close> is added to the book as a resting order and returned as
  \<open>remaining\<close>, and a remainder of at most \<open>1e-8\<close> is dropped. A limit order that does not
  cross is added to the book and returned as \<open>remaining\<close>, with no trades. An added order
  goes to the tail of the queue at its tick-rounded price on its own side; the other
  queues and the opposite side are unchanged.
\<close>

theorem placeAndMatch_routing:
  "\<exists>b' r. executeMarket (side_o ord) (size_o ord) now b = Some (b', r) \<and>
     (kind_o ord = Market \<longrightarrow>
        placeAndMatch ord now b = Some (b', \<lparr>trades_p = trades_r r, remaining = None\<rparr>) \<and>
        ownSide (side_o ord) b' = ownSide (side_o ord) b) \<and>
     (kind_o ord = Limit \<and> crossesBook ord b \<and> size_o ord - filled r > 1 / 10 ^ 8 \<longrightarrow>
        placeAndMatch ord now b =
          Some (add (ord\<lparr>size_o := size_o ord - filled r\<rparr>) b',
                \<lparr>trades_p = trades_r r, remaining = Some (ord\<lparr>size_o := size_o ord - filled r\<rparr>)\<rparr>)) \<and>
     (kind_o ord = Limit \<and> crossesBook ord b \<and> size_o ord - filled r \<le> 1 / 10 ^ 8 \<longrightarrow>
        placeAndMatch ord now b = Some (b', \<lparr>trades_p = trades_r r, remaining = None\<rparr>)) \<and>
     (kind_o ord = Limit \<and> \<not> crossesBook ord b \<longrightarrow>
        placeAndMatch ord now b = Some (add ord b, \<lparr>trades_p = [], remaining = Some ord\<rparr>)) \<and>
     (\<forall>c px. queueAt (ownSide (side_o ord) (add ord c)) px =
          (if px = roundTick (price_o ord)
           then queueAt (ownSide (side_o ord) c) px @ [ord\<lparr>price_o := roundTick (price_o ord)\<rparr>]
           else queueAt (ownSide (side_o ord) c) px)) \<and>
     (\<forall>c. oppositeSide (side_o ord) (add ord c) = oppositeSide (side_o ord) c)"
proof -
  obtain b' r st where e: "executeMarket (side_o ord) (size_o ord) now b = Some (b', r)"
    and o: "ownSide (side_o ord) b' = ownSide (side_o ord) b"
    by (rule executeMarket_summary)
  have "kind_o ord = Market \<longrightarrow>
        placeAndMatch ord now b = Some (b', \<lparr>trades_p = trades_r r, remaining = None\<rparr>) \<and>
        ownSide (side_o ord) b' = ownSide (side_o ord) b"
    using placeAndMatch_market[OF _ e] o by simp
  moreover have "kind_o ord = Limit \<and> crossesBook ord b \<and> size_o ord - filled r > 1 / 10 ^ 8 \<longrightarrow>
        placeAndMatch ord now b =
          Some (add (ord\<lparr>size_o := size_o ord - filled r\<rparr>) b',
                \<lparr>trades_p = trades_r r, remaining = Some (ord\<lparr>size_o := size_o ord - filled r\<rparr>)\<rparr>)"
    using placeAndMatch_cross[OF _ _ e] by simp
  moreover have "kind_o ord = Limit \<and> crossesBook ord b \<and> size_o ord - filled r \<le> 1 / 10 ^ 8 \<longrightarrow>
        placeAndMatch ord now b = Some (b', \<lparr>trades_p = trades_r r, remaining = None\<rparr>)"
    using placeAndMatch_cross[OF _ _ e] by simp
  moreover have "kind_o ord = Limit \<and> \<not> crossesBook ord b \<longrightarrow>
        placeAndMatch ord now b = Some (add ord b, \<lparr>trades_p = [], remaining = Some ord\<rparr>)"
    using placeAndMatch_rest by simp
  moreover have "\<forall>c px. queueAt (ownSide (side_o ord) (add ord c)) px =
          (if px = roundTick (price_o ord)
           then queueAt (ownSide (side_o ord) c) px @ [ord\<lparr>price_o := roundTick (price_o ord)\<rparr>]
           else queueAt (ownSide (side_o ord) c) px)"
    by (simp add: add_sides queueAt_addLevel)
  moreover have "\<forall>c. oppositeSide (side_o ord) (add ord c) = oppositeSide (side_o ord) c"
    by (simp add: add_sides)
  ultimately show ?thesis using e by blast
qed

theorem placeAndMatch_routing_witness:
  "(\<exists>b' r. executeMarket Buy 5 7 demoBook = Some (b', r) \<and>
      placeAndMatch (marketOrder ''M'' Buy 5) 7 demoBook
        = Some (b', \<lparr>trades_p = trades_r r, remaining = None\<rparr>) \<and>
      bids b' = bids demoBook) \<and>
   (\<exists>b' r. executeMarket Buy 7 7 demoBook = Some (b', r) \<and>
      crossesBook (limitOrder ''X'' Buy 1 7) demoBook \<and> filled r = 6 \<and>
      placeAndMatch (limitOrder ''X'' Buy 1 7) 7 demoBook
        = Some (add (limitOrder ''X'' Buy 1 1) b',
                \<lparr>trades_p = trades_r r, remaining = Some (limitOrder ''X'' Buy 1 1)\<rparr>)) \<and>
   \<not> crossesBook (limitOrder ''Z'' Buy (98 / 100) 1) demoBook \<and>
   placeAndMatch (limitOrder ''Z'' Buy (98 / 100) 1) 7 demoBook
     = Some (add (limitOrder ''Z'' Buy (98 / 100) 1) demoBook,
             \<lparr>trades_p = [], remaining = Some (limitOrder ''Z'' Buy (98 / 100) 1)\<rparr>)"
proof -
  have ask: "bestAsk demoBook = Some 1" by code_simp
  have m: "kind_o (marketOrder ''M'' Buy 5) = Market" "side_o (marketOrder ''M'' Buy 5) = Buy"
    "size_o (marketOrder ''M'' Buy 5) = 5"
    by (simp_all add: marketOrder_def)
  from placeAndMatch_routing[of "marketOrder ''M'' Buy 5" 7 demoBook]
  have first: "\<exists>b' r. executeMarket Buy 5 7 demoBook = Some (b', r) \<and>
      placeAndMatch (marketOrder ''M'' Buy 5) 7 demoBook
        = Some (b', \<lparr>trades_p = trades_r r, remaining = None\<rparr>) \<and>
      bids b' = bids demoBook"
    unfolding m by (auto simp: ownSide_def)
  have x: "kind_o (limitOrder ''X'' Buy 1 7) = Limit" "side_o (limitOrder ''X'' Buy 1 7) = Buy"
    "size_o (limitOrder ''X'' Buy 1 7) = 7"
    by (simp_all add: limitOrder_def)
  have cx: "crossesBook (limitOrder ''X'' Buy 1 7) demoBook"
    using ask by (simp add: crossesBook_def limitOrder_def)
  have ev: "map_option (filled \<circ> snd) (executeMarket Buy 7 7 demoBook) = Some 6" by code_simp
  have lo: "(limitOrder ''X'' Buy 1 7)\<lparr>size_o := 7 - 6\<rparr> = limitOrder ''X'' Buy 1 1"
    by (simp add: limitOrder_def)
  from placeAndMatch_routing[of "limitOrder ''X'' Buy 1 7" 7 demoBook] obtain b' r where
    e: "executeMarket Buy 7 7 demoBook = Some (b', r)" and
    c: "kind_o (limitOrder ''X'' Buy 1 7) = Limit \<and> crossesBook (limitOrder ''X'' Buy 1 7) demoBook \<and>
          7 - filled r > 1 / 10 ^ 8 \<longrightarrow>
        placeAndMatch (limitOrder ''X'' Buy 1 7) 7 demoBook =
          Some (add ((limitOrder ''X'' Buy 1 7)\<lparr>size_o := 7 - filled r\<rparr>) b',
                \<lparr>trades_p = trades_r r,
                 remaining = Some ((limitOrder ''X'' Buy 1 7)\<lparr>size_o := 7 - filled r\<rparr>)\<rparr>)"
    unfolding x by blast
  from ev e have f: "filled r = 6" by simp
  from c x(1) cx have "placeAndMatch (limitOrder ''X'' Buy 1 7) 7 demoBook
        = Some (add (limitOrder ''X'' Buy 1 1) b',
                \<lparr>trades_p = trades_r r, remaining = Some (limitOrder ''X'' Buy 1 1)\<rparr>)"
    unfolding f lo by simp
  with e cx f have second: "\<exists>b' r. executeMarket Buy 7 7 demoBook = Some (b', r) \<and>
      crossesBook (limitOrder ''X'' Buy 1 7) demoBook \<and> filled r = 6 \<and>
      placeAndMatch (limitOrder ''X'' Buy 1 7) 7 demoBook
        = Some (add (limitOrder ''X'' Buy 1 1) b',
                \<lparr>trades_p = trades_r r, remaining = Some (limitOrder ''X'' Buy 1 1)\<rparr>)"
    by blast
  have z: "kind_o (limitOrder ''Z'' Buy (98 / 100) 1) = Limit" by (simp add: limitOrder_def)
  have cz: "\<not> crossesBook (limitOrder ''Z'' Buy (98 / 100) 1) demoBook"
    using ask by (simp add: crossesBook_def limitOrder_def)
  from placeAndMatch_routing[of "limitOrder ''Z'' Buy (98 / 100) 1" 7 demoBook] z cz
  have third: "placeAndMatch (limitOrder ''Z'' Buy (98 / 100) 1) 7 demoBook
     = Some (add (limitOrder ''Z'' Buy (98 / 100) 1) demoBook,
             \<lparr>trades_p = [], remaining = Some (limitOrder ''Z'' Buy (98 / 100) 1)\<rparr>)"
    by blast
  from first second cz third show ?thesis by blast
qed

text \<open>The claim as stated, with any unfilled remainder resting, fails: a crossing limit
  buy of \<open>1 + 5e-9\<close> at \<open>1.00\<close> against one ask of size \<open>1\<close> trades \<open>1\<close>, and its remainder of
  \<open>5e-9\<close> neither rests in the book nor is returned.\<close>

theorem placeAndMatch_routing_counterexample:
  "crossesBook (limitOrder ''X'' Buy 1 (1 + 5 / 10 ^ 9)) dustBook \<and>
   placeAndMatch (limitOrder ''X'' Buy 1 (1 + 5 / 10 ^ 9)) 0 dustBook = Some (emptyBook, dustPlaced) \<and>
   remaining dustPlaced = None \<and> tradedSize (trades_p dustPlaced) = 1 \<and>
   bids emptyBook = fmempty"
  by code_simp

section \<open>The book stays uncrossed\<close>

lemma uncrossed_iff:
  "uncrossed b \<longleftrightarrow> (\<forall>x y. x |\<in>| fmdom (bids b) \<longrightarrow> y |\<in>| fmdom (asks b) \<longrightarrow> x < y)"
proof
  assume u: "uncrossed b"
  show "\<forall>x y. x |\<in>| fmdom (bids b) \<longrightarrow> y |\<in>| fmdom (asks b) \<longrightarrow> x < y"
  proof (intro allI impI)
    fix x y assume x: "x |\<in>| fmdom (bids b)" and y: "y |\<in>| fmdom (asks b)"
    then have ne: "fmdom (bids b) \<noteq> {||}" "fmdom (asks b) \<noteq> {||}" by auto
    with u have "fMax (fmdom (bids b)) < fMin (fmdom (asks b))"
      by (simp add: uncrossed_def bestBid_def bestAsk_def)
    moreover have "x \<le> fMax (fmdom (bids b))" using x by simp
    moreover have "fMin (fmdom (asks b)) \<le> y" using y by simp
    ultimately show "x < y" by simp
  qed
next
  assume a: "\<forall>x y. x |\<in>| fmdom (bids b) \<longrightarrow> y |\<in>| fmdom (asks b) \<longrightarrow> x < y"
  show "uncrossed b"
  proof (cases "fmdom (bids b) = {||} \<or> fmdom (asks b) = {||}")
    case True
    then show ?thesis by (auto simp: uncrossed_def bestBid_def bestAsk_def)
  next
    case False
    then have "fMax (fmdom (bids b)) |\<in>| fmdom (bids b)" "fMin (fmdom (asks b)) |\<in>| fmdom (asks b)"
      by simp_all
    with a have "fMax (fmdom (bids b)) < fMin (fmdom (asks b))" by blast
    with False show ?thesis by (simp add: uncrossed_def bestBid_def bestAsk_def)
  qed
qed

lemma uncrossed_sides:
  "uncrossed b \<longleftrightarrow>
     (\<forall>x y. x |\<in>| fmdom (ownSide sd b) \<longrightarrow> y |\<in>| fmdom (oppositeSide sd b) \<longrightarrow>
            (if sd = Buy then x < y else y < x))"
  by (cases sd) (auto simp: uncrossed_iff ownSide_def oppositeSide_def)

text \<open>What one call of \<^verbatim>\<open>executeMarket\<close> does to the key sets of the two sides.\<close>

lemma executeMarket_keys:
  assumes "executeMarket sd sz now b = Some (b', r)"
  shows "ownSide sd b' = ownSide sd b"
    and "fmdom (oppositeSide sd b') |\<subseteq>| fmdom (oppositeSide sd b)"
    and "sz - filled r > 0 \<Longrightarrow> fmdom (oppositeSide sd b') = {||}"
proof -
  let ?st0 = "\<lparr>remain = sz, notional = 0, trades = []\<rparr>"
  let ?book = "oppositeSide sd b"
  obtain b'' r'' st where e: "executeMarket sd sz now b = Some (b'', r'')"
    and w: "walkLevels sd now (sortedLevels sd ?book) ?book ?st0 = Some (oppositeSide sd b'', st)"
    and o: "ownSide sd b'' = ownSide sd b"
    and f: "filled r'' = sz - remain st"
    by (rule executeMarket_summary)
  from e assms have eq: "b'' = b'" "r'' = r" by simp_all
  show "ownSide sd b' = ownSide sd b" using o eq by simp
  show sub: "fmdom (oppositeSide sd b') |\<subseteq>| fmdom ?book" using walk_frame[OF w] eq by simp
  show "fmdom (oppositeSide sd b') = {||}" if "sz - filled r > 0"
  proof -
    from that f eq have pos: "remain st > 0" by simp
    have "0 \<le> sz"
    proof (rule ccontr)
      assume "\<not> 0 \<le> sz"
      then have "remain ?st0 \<le> 0" by simp
      from walk_done[OF this] w have "st = ?st0" by simp
      with pos \<open>\<not> 0 \<le> sz\<close> show False by simp
    qed
    then have "0 \<le> remain ?st0" by simp
    from walk_conserve[OF w _ _ this, of "fset (fmdom ?book)"] pos
    have "\<forall>p\<in>fset (fmdom ?book). p |\<notin>| fmdom (oppositeSide sd b'')"
      by (simp add: sortedLevels_set)
    with sub eq show ?thesis by auto
  qed
qed

lemma executeMarket_uncrossed:
  assumes "executeMarket sd sz now b = Some (b', r)" and "uncrossed b"
  shows "uncrossed b'"
  using assms(2) executeMarket_keys(1,2)[OF assms(1)]
  unfolding uncrossed_sides[of _ sd] by auto

lemma add_uncrossed_empty:
  "fmdom (oppositeSide (side_o ord) b) = {||} \<Longrightarrow> uncrossed (add ord b)"
  unfolding uncrossed_sides[of _ "side_o ord"] by (simp add: add_sides)

lemma add_uncrossed:
  assumes "uncrossed b" and "\<not> crossesBook (ord\<lparr>price_o := roundTick (price_o ord)\<rparr>) b"
  shows "uncrossed (add ord b)"
proof (cases "side_o ord")
  case Buy
  have lt: "roundTick (price_o ord) < y" if y: "y |\<in>| fmdom (asks b)" for y
  proof -
    from y have ne: "fmdom (asks b) \<noteq> {||}" by auto
    with assms(2) Buy have "roundTick (price_o ord) < fMin (fmdom (asks b))"
      by (simp add: crossesBook_def bestAsk_def)
    moreover have "fMin (fmdom (asks b)) \<le> y" using y by simp
    ultimately show ?thesis by simp
  qed
  from assms(1) lt Buy show ?thesis
    by (auto simp: uncrossed_iff add_def dom_addLevel)
next
  case Sell
  have lt: "x < roundTick (price_o ord)" if x: "x |\<in>| fmdom (bids b)" for x
  proof -
    from x have ne: "fmdom (bids b) \<noteq> {||}" by auto
    with assms(2) Sell have "fMax (fmdom (bids b)) < roundTick (price_o ord)"
      by (simp add: crossesBook_def bestBid_def)
    moreover have "x \<le> fMax (fmdom (bids b))" using x by simp
    ultimately show ?thesis by simp
  qed
  from assms(1) lt Sell show ?thesis
    by (auto simp: uncrossed_iff add_def dom_addLevel)
qed

lemma placeAndMatch_total: "\<exists>b' res. placeAndMatch ord now b = Some (b', res)"
proof -
  obtain b' r st where e: "executeMarket (side_o ord) (size_o ord) now b = Some (b', r)"
    by (rule executeMarket_summary)
  show ?thesis
  proof (cases "kind_o ord")
    case Market
    from placeAndMatch_market[OF this e] show ?thesis by blast
  next
    case Limit
    show ?thesis
    proof (cases "crossesBook ord b")
      case True
      from placeAndMatch_cross[OF Limit True e] show ?thesis by (cases "size_o ord - filled r > 1 / 10 ^ 8") auto
    next
      case False
      from placeAndMatch_rest[OF Limit False] show ?thesis by blast
    qed
  qed
qed

lemma placeAndMatch_uncrossed:
  assumes p: "placeAndMatch ord now b = Some (b', res)" and u: "uncrossed b"
    and t: "kind_o ord = Market \<or> roundTick (price_o ord) = price_o ord"
  shows "uncrossed b'"
proof -
  obtain b1 r st where e: "executeMarket (side_o ord) (size_o ord) now b = Some (b1, r)"
    by (rule executeMarket_summary)
  have u1: "uncrossed b1" by (rule executeMarket_uncrossed[OF e u])
  show ?thesis
  proof (cases "kind_o ord")
    case Market
    from placeAndMatch_market[OF this e] p u1 show ?thesis by simp
  next
    case Limit
    with t have tick: "roundTick (price_o ord) = price_o ord" by simp
    show ?thesis
    proof (cases "crossesBook ord b")
      case True
      note pm = placeAndMatch_cross[OF Limit True e]
      show ?thesis
      proof (cases "size_o ord - filled r > 1 / 10 ^ 8")
        case big: True
        then have "size_o ord - filled r > 0" by simp
        from executeMarket_keys(3)[OF e this]
        have "fmdom (oppositeSide (side_o (ord\<lparr>size_o := size_o ord - filled r\<rparr>)) b1) = {||}" by simp
        from add_uncrossed_empty[OF this] pm big p show ?thesis by simp
      next
        case False
        with pm p u1 show ?thesis by simp
      qed
    next
      case False
      have "ord\<lparr>price_o := roundTick (price_o ord)\<rparr> = ord" by (simp add: tick)
      with False have "\<not> crossesBook (ord\<lparr>price_o := roundTick (price_o ord)\<rparr>) b" by simp
      from add_uncrossed[OF u this] placeAndMatch_rest[OF Limit False] p show ?thesis by simp
    qed
  qed
qed

lemma applyOp_uncrossed:
  "admissible oper b \<Longrightarrow> uncrossed b \<Longrightarrow> \<exists>b'. applyOp oper b = Some b' \<and> uncrossed b'"
proof (cases oper)
  case (Add ord)
  assume "admissible oper b" "uncrossed b"
  with Add show ?thesis by (simp add: add_uncrossed)
next
  case (PlaceAndMatch ord now)
  assume a: "admissible oper b" and u: "uncrossed b"
  obtain b' res where p: "placeAndMatch ord now b = Some (b', res)"
    using placeAndMatch_total by blast
  from a PlaceAndMatch have "kind_o ord = Market \<or> roundTick (price_o ord) = price_o ord" by simp
  from placeAndMatch_uncrossed[OF p u this] p PlaceAndMatch show ?thesis by simp
qed

lemma runOps_uncrossed:
  "admissibleRun ops b \<Longrightarrow> uncrossed b \<Longrightarrow> \<exists>b'. runOps ops b = Some b' \<and> uncrossed b'"
proof (induction ops arbitrary: b)
  case Nil
  then show ?case by simp
next
  case (Cons oper ops)
  from Cons.prems have a: "admissible oper b" by simp
  from applyOp_uncrossed[OF a Cons.prems(2)] obtain b1 where
    b1: "applyOp oper b = Some b1" "uncrossed b1" by blast
  with Cons.prems(1) have "admissibleRun ops b1" by simp
  from Cons.IH[OF this b1(2)] b1(1) show ?case by simp
qed

lemma uncrossed_emptyBook: "uncrossed emptyBook"
  by (simp add: uncrossed_def bestBid_def emptyBook_def)

text \<open>
  Claim C2 (no resting cross), as amended. Starting from the empty book, after any sequence
  of \<^verbatim>\<open>placeAndMatch\<close> calls with market orders or with limit orders priced on the tick
  grid, and of \<^verbatim>\<open>add\<close> calls of orders whose tick-rounded price does not cross the best
  opposing price, every call returns, and whenever both a best bid and a best ask exist,
  \<open>bestBid < bestAsk\<close>.
\<close>

theorem no_resting_cross:
  assumes "admissibleRun ops emptyBook"
  shows "\<exists>b'. runOps ops emptyBook = Some b' \<and>
           (\<forall>bb ba. bestBid b' = Some bb \<longrightarrow> bestAsk b' = Some ba \<longrightarrow> bb < ba)"
proof -
  from runOps_uncrossed[OF assms uncrossed_emptyBook] obtain b' where
    "runOps ops emptyBook = Some b'" "uncrossed b'" by blast
  then show ?thesis by (auto simp: uncrossed_def)
qed

theorem no_resting_cross_witness:
  "admissibleRun demoOps emptyBook \<and>
   (\<exists>b'. runOps demoOps emptyBook = Some b' \<and>
      bestBid b' = Some (99 / 100) \<and> bestAsk b' = Some 1 \<and> (99 / 100 :: rat) < 1)"
proof -
  have a: "admissibleRun demoOps emptyBook" by code_simp
  have bb: "map_option bestBid (runOps demoOps emptyBook) = Some (Some (99 / 100))" by code_simp
  have ba: "map_option bestAsk (runOps demoOps emptyBook) = Some (Some 1)" by code_simp
  from no_resting_cross[OF a] obtain b' where
    r: "runOps demoOps emptyBook = Some b'" and
    u: "\<forall>bb ba. bestBid b' = Some bb \<longrightarrow> bestAsk b' = Some ba \<longrightarrow> bb < ba"
    by blast
  from bb ba r have v: "bestBid b' = Some (99 / 100)" "bestAsk b' = Some 1" by simp_all
  with u have "(99 / 100 :: rat) < 1" by blast
  with a r v show ?thesis by blast
qed

text \<open>The claim as stated, for any sequence of \<^verbatim>\<open>add\<close> and \<^verbatim>\<open>placeAndMatch\<close> calls, fails.
  \<^verbatim>\<open>add\<close> performs no matching: a bid added at \<open>1.00\<close> and an ask added at \<open>0.99\<close> both
  rest. And \<^verbatim>\<open>placeAndMatch\<close> tests the crossing on the price as given while \<^verbatim>\<open>add\<close>
  rounds it to the tick: a limit buy at \<open>0.99996\<close> does not cross an ask at \<open>1.00\<close> and rests
  as a bid at \<open>1.00\<close>.\<close>

theorem no_resting_cross_counterexample:
  "map_option bestBid (runOps crossedAdds emptyBook) = Some (Some 1) \<and>
   map_option bestAsk (runOps crossedAdds emptyBook) = Some (Some (99 / 100)) \<and>
   map_option bestBid (runOps offTickPlaces emptyBook) = Some (Some 1) \<and>
   map_option bestAsk (runOps offTickPlaces emptyBook) = Some (Some 1)"
  by code_simp

end
